theory Spec2Isabelle
  imports Complex_Main
begin

section \<open>Geometry: boxes and intersection over union\<close>

text \<open>
  A box is the tuple \<open>(x, y, width, height)\<close> that the Python code unpacks. Python
  numbers (ints and floats) are embedded into \<open>real\<close>: arithmetic is exact, so the
  development speaks about the algorithms and not about rounding.
\<close>

type_synonym box = "real \<times> real \<times> real \<times> real"

text \<open>\<open>utils.calculate_iou\<close>.\<close>

definition calculate_iou :: "box \<Rightarrow> box \<Rightarrow> real" where
  "calculate_iou box1 box2 =
     (case box1 of (x1, y1, w1, h1) \<Rightarrow>
      case box2 of (x2, y2, w2, h2) \<Rightarrow>
        let left = max x1 x2;
            top = max y1 y2;
            right = min (x1 + w1) (x2 + w2);
            bottom = min (y1 + h1) (y2 + h2)
        in if left < right \<and> top < bottom then
             (let intersection = (right - left) * (bottom - top);
                  area1 = w1 * h1;
                  area2 = w2 * h2;
                  union = area1 + area2 - intersection
              in if union > 0 then intersection / union else 0)
           else 0)"

text \<open>\<open>VideoProcessor._calculate_overlap\<close>: the same computation, written a second time.\<close>

definition calculate_overlap :: "box \<Rightarrow> box \<Rightarrow> real" where
  "calculate_overlap box1 box2 =
     (case box1 of (x1, y1, w1, h1) \<Rightarrow>
      case box2 of (x2, y2, w2, h2) \<Rightarrow>
        let left = max x1 x2;
            top = max y1 y2;
            right = min (x1 + w1) (x2 + w2);
            bottom = min (y1 + h1) (y2 + h2)
        in if left < right \<and> top < bottom then
             (let intersection = (right - left) * (bottom - top);
                  area1 = w1 * h1;
                  area2 = w2 * h2;
                  union = area1 + area2 - intersection
              in if union > 0 then intersection / union else 0)
           else 0)"

text \<open>The open interior of a box, as a set of points of the plane.\<close>

definition interior_pts :: "box \<Rightarrow> (real \<times> real) set" where
  "interior_pts b =
     (case b of (x, y, w, h) \<Rightarrow> {(px, py). x < px \<and> px < x + w \<and> y < py \<and> py < y + h})"

text \<open>
  The quantities the code computes on the branch where the boxes meet, named so that
  statements can speak about them.
\<close>

definition inter_area :: "box \<Rightarrow> box \<Rightarrow> real" where
  "inter_area box1 box2 =
     (case box1 of (x1, y1, w1, h1) \<Rightarrow>
      case box2 of (x2, y2, w2, h2) \<Rightarrow>
        (min (x1 + w1) (x2 + w2) - max x1 x2) * (min (y1 + h1) (y2 + h2) - max y1 y2))"

definition boxes_meet :: "box \<Rightarrow> box \<Rightarrow> bool" where
  "boxes_meet box1 box2 =
     (case box1 of (x1, y1, w1, h1) \<Rightarrow>
      case box2 of (x2, y2, w2, h2) \<Rightarrow>
        max x1 x2 < min (x1 + w1) (x2 + w2) \<and> max y1 y2 < min (y1 + h1) (y2 + h2))"

definition box_area :: "box \<Rightarrow> real" where
  "box_area b = (case b of (x, y, w, h) \<Rightarrow> w * h)"


text \<open>\<open>ParkingDetector._calculate_overlap\<close>: the third copy, used by the region variant.\<close>

definition detector_calculate_overlap :: "box \<Rightarrow> box \<Rightarrow> real" where
  "detector_calculate_overlap box1 box2 =
     (case box1 of (x1, y1, w1, h1) \<Rightarrow>
      case box2 of (x2, y2, w2, h2) \<Rightarrow>
        let left = max x1 x2;
            top = max y1 y2;
            right = min (x1 + w1) (x2 + w2);
            bottom = min (y1 + h1) (y2 + h2)
        in if left < right \<and> top < bottom then
             (let intersection = (right - left) * (bottom - top);
                  area1 = w1 * h1;
                  area2 = w2 * h2;
                  union = area1 + area2 - intersection
              in if union > 0 then intersection / union else 0)
           else 0)"

section \<open>Data model\<close>

text \<open>Python exceptions that the modelled code can raise.\<close>

datatype py_error = ValueError string | IndexError | KeyError | ZeroDivisionError

text \<open>
  A detection dictionary: keys \<open>bbox\<close>, \<open>confidence\<close>, \<open>class_id\<close> and \<open>class\<close>. The
  classifier reads the class with \<open>detection.get('class', 'vehicle')\<close>, so the key may be
  absent: \<open>class_name = None\<close> stands for a dictionary without it.
\<close>

record detection =
  bbox :: box
  confidence :: real
  class_id :: int
  class_name :: "string option"

text \<open>A slot of the configuration: keys \<open>id\<close>, \<open>slot_number\<close>, \<open>coordinates\<close>.\<close>

record slot =
  s_id :: int
  s_slot_number :: int
  coordinates :: box

text \<open>
  What the image heuristic reads from a cropped region: its number of array elements and
  the three features that OpenCV and NumPy compute from it (edge density after Canny,
  variance and mean of the grey image). A frame is its shape \<open>(height, width)\<close> and its
  crops \<open>frame[y0:y1, x0:x1]\<close>.
\<close>

record slot_image =
  size_px :: nat
  edge_density :: real
  variance :: real
  mean_intensity :: real

record frame =
  shape :: "nat \<times> nat"
  region :: "int \<Rightarrow> int \<Rightarrow> int \<Rightarrow> int \<Rightarrow> slot_image"

text \<open>The verdict dictionary returned by \<open>_analyze_slot_occupancy\<close>.\<close>

record verdict =
  slot_id :: int
  slot_number :: int
  is_occupied :: bool
  v_confidence :: real
  vehicle_type :: "string option"
  detection_box :: "box option"

text \<open>A timeline entry and the estimate computed from a timeline.\<close>

record timeline_entry =
  t_frame :: nat
  t_is_occupied :: bool
  t_confidence :: real

record estimate =
  final_status :: bool
  e_confidence :: real
  predicted_duration :: int
  changes :: nat
  stability :: real

text \<open>
  The per-slot dictionary of the duration pass. The merge of the full analysis reads
  \<open>predicted_duration\<close> and \<open>stability_score\<close> with \<open>dict.get\<close> and a default, so these two
  keys are optional here; the duration pass always sets them.
\<close>

record duration_detection =
  d_slot_id :: int
  d_slot_number :: int
  d_is_occupied :: bool
  d_confidence :: real
  d_predicted_duration :: "int option"
  occupancy_changes :: nat
  stability_score :: "real option"

text \<open>The per-slot dictionary of the full analysis.\<close>

record final_detection =
  f_slot_id :: int
  f_slot_number :: int
  f_is_occupied :: bool
  f_confidence :: real
  f_predicted_duration :: int
  f_vehicle_type :: "string option"
  f_detection_box :: "box option"
  f_stability_score :: real

record scores =
  overall :: real
  vehicle_detection :: real
  slot_classification :: real

record 'a results =
  slot_detections :: "'a list"
  vehicle_count :: nat
  occupancy_rate :: real
  confidence_scores :: scores

section \<open>Slot Occupancy Classifier\<close>

text \<open>Python's \<open>int()\<close> on a number truncates towards zero.\<close>

definition py_int :: "real \<Rightarrow> int" where
  "py_int r = (if 0 \<le> r then \<lfloor>r\<rfloor> else \<lceil>r\<rceil>)"

text \<open>\<open>VideoProcessor._analyze_slot_image\<close>.\<close>

definition analyze_slot_image :: "slot_image \<Rightarrow> real" where
  "analyze_slot_image slot_img =
     (if size_px slot_img = 0 then 0
      else
        (let occupancy_score =
               edge_density slot_img * 0.4
               + min (variance slot_img / 1000) 1 * 0.3
               + (1 - mean_intensity slot_img / 255) * 0.3
         in min occupancy_score 1))"

text \<open>
  The loop over the detections in \<open>_analyze_slot_occupancy\<close>; the state is
  \<open>(is_occupied, best_confidence, vehicle_type, detection_box)\<close>.
\<close>

type_synonym scan_state = "bool \<times> real \<times> string option \<times> box option"

fun scan_detections :: "box \<Rightarrow> detection list \<Rightarrow> scan_state \<Rightarrow> scan_state" where
  "scan_detections sb [] st = st"
| "scan_detections sb (d # ds) (is_occ, best_confidence, vtype, dbox) =
     (let overlap = calculate_overlap sb (bbox d) in
      if overlap > 0.5 \<and> confidence d > best_confidence
      then scan_detections sb ds
             (True, confidence d,
              Some (case class_name d of Some c \<Rightarrow> c | None \<Rightarrow> ''vehicle''),
              Some (bbox d))
      else scan_detections sb ds (is_occ, best_confidence, vtype, dbox))"

text \<open>\<open>VideoProcessor._analyze_slot_occupancy\<close>.\<close>

definition analyze_slot_occupancy :: "frame \<Rightarrow> slot \<Rightarrow> detection list \<Rightarrow> verdict" where
  "analyze_slot_occupancy frm slt detections =
     (case coordinates slt of (x, y, w, h) \<Rightarrow>
        let slot_region = region frm (py_int y) (py_int (y + h)) (py_int x) (py_int (x + w))
        in case scan_detections (x, y, w, h) detections (False, 0, None, None) of
             (is_occ, best_confidence, vtype, dbox) \<Rightarrow>
               if \<not> is_occ then
                 (let occupancy_score = analyze_slot_image slot_region
                  in \<lparr>slot_id = s_id slt, slot_number = s_slot_number slt,
                      is_occupied = (occupancy_score > 0.6), v_confidence = occupancy_score,
                      vehicle_type = vtype, detection_box = dbox\<rparr>)
               else
                 \<lparr>slot_id = s_id slt, slot_number = s_slot_number slt,
                  is_occupied = is_occ, v_confidence = best_confidence,
                  vehicle_type = vtype, detection_box = dbox\<rparr>)"

text \<open>
  The region-association variant, \<open>ParkingDetector.detect_in_regions\<close>. A region vehicle
  is the detection extended by the keys \<open>overlap\<close>, \<open>region_id\<close> and \<open>slot_number\<close>.
\<close>

record region_vehicle =
  rv_detection :: detection
  rv_overlap :: real
  rv_region_id :: int
  rv_slot_number :: int

record region_detection =
  region_id :: int
  rd_slot_number :: int
  rd_is_occupied :: bool
  rd_detection :: "region_vehicle option"

text \<open>Python's \<open>max(xs, key=f)\<close> on a non-empty list: the first element of maximal key.\<close>

fun max_by :: "('a \<Rightarrow> real) \<Rightarrow> 'a \<Rightarrow> 'a list \<Rightarrow> 'a" where
  "max_by key best [] = best"
| "max_by key best (x # xs) = max_by key (if key x > key best then x else best) xs"

fun region_vehicles :: "slot \<Rightarrow> detection list \<Rightarrow> region_vehicle list" where
  "region_vehicles rgn [] = []"
| "region_vehicles rgn (d # ds) =
     (let overlap = detector_calculate_overlap (coordinates rgn) (bbox d) in
      if overlap > 0.3
      then \<lparr>rv_detection = d, rv_overlap = overlap, rv_region_id = s_id rgn,
            rv_slot_number = s_slot_number rgn\<rparr> # region_vehicles rgn ds
      else region_vehicles rgn ds)"

definition region_result :: "slot \<Rightarrow> detection list \<Rightarrow> region_detection" where
  "region_result rgn all_detections =
     (case region_vehicles rgn all_detections of
        [] \<Rightarrow> \<lparr>region_id = s_id rgn, rd_slot_number = s_slot_number rgn,
               rd_is_occupied = False, rd_detection = None\<rparr>
      | v # vs \<Rightarrow> \<lparr>region_id = s_id rgn, rd_slot_number = s_slot_number rgn,
                   rd_is_occupied = True, rd_detection = Some (max_by rv_overlap v vs)\<rparr>)"

text \<open>
  The detector is a parameter of everything that calls \<open>detect_vehicles\<close>: a function from
  the detector's state (the model, the random generator) and a frame to the detections and
  the next state, or to the exception it raises.
\<close>

type_synonym 'd detect_fn = "'d \<Rightarrow> frame \<Rightarrow> py_error + (detection list \<times> 'd)"

definition detect_in_regions ::
  "'d detect_fn \<Rightarrow> 'd \<Rightarrow> frame \<Rightarrow> slot list \<Rightarrow> py_error + (region_detection list \<times> 'd)" where
  "detect_in_regions detect dt frm regions =
     (case detect dt frm of
        Inl e \<Rightarrow> Inl e
      | Inr (all_detections, dt') \<Rightarrow>
          Inr (map (\<lambda>rgn. region_result rgn all_detections) regions, dt'))"

section \<open>Duration/Stability Estimator\<close>

text \<open>The loop counting occupancy changes; the state is \<open>(changes, prev_status)\<close>.\<close>

fun count_changes :: "nat \<Rightarrow> bool \<Rightarrow> timeline_entry list \<Rightarrow> nat" where
  "count_changes chg prev_status [] = chg"
| "count_changes chg prev_status (entry # rest) =
     (if t_is_occupied entry \<noteq> prev_status
      then count_changes (chg + 1) (t_is_occupied entry) rest
      else count_changes chg prev_status rest)"

text \<open>\<open>VideoProcessor._analyze_slot_duration\<close>.\<close>

definition analyze_slot_duration :: "timeline_entry list \<Rightarrow> estimate" where
  "analyze_slot_duration timeline =
     (case timeline of
        [] \<Rightarrow> \<lparr>final_status = False, e_confidence = 0.5, predicted_duration = 1800,
               changes = 0, stability = 0\<rparr>
      | first # rest \<Rightarrow>
          let chg = count_changes 0 (t_is_occupied first) rest;
              stab = max 0 (1 - real chg / real (length timeline));
              occupied_count = length (filter t_is_occupied timeline);
              final = (real occupied_count > real (length timeline) / 2);
              predicted =
                (if final then
                   (let base_duration = 1800 in
                    if stab > 0.8 then base_duration * 2 else base_duration)
                 else 0);
              avg_confidence = sum_list (map t_confidence timeline) / real (length timeline)
          in \<lparr>final_status = final, e_confidence = avg_confidence * stab,
              predicted_duration = predicted, changes = chg, stability = stab\<rparr>)"

text \<open>
  The estimate as the specification words it: the changes are the adjacent pairs that
  differ, the vote is a strict majority, the duration has two tiers.
\<close>

definition adjacent_flips :: "timeline_entry list \<Rightarrow> nat" where
  "adjacent_flips timeline =
     length (filter (\<lambda>(a, b). t_is_occupied a \<noteq> t_is_occupied b) (zip timeline (tl timeline)))"

definition reference_estimate :: "timeline_entry list \<Rightarrow> estimate" where
  "reference_estimate timeline =
     (if timeline = [] then
        \<lparr>final_status = False, e_confidence = 1 / 2, predicted_duration = 1800,
         changes = 0, stability = 0\<rparr>
      else
        (let n = real (length timeline);
             stab = max 0 (1 - real (adjacent_flips timeline) / n);
             occupied = (2 * length (filter t_is_occupied timeline) > length timeline)
         in \<lparr>final_status = occupied,
             e_confidence = (sum_list (map t_confidence timeline) / n) * stab,
             predicted_duration =
               (if occupied \<and> stab > 0.8 then 3600 else if occupied then 1800 else 0),
             changes = adjacent_flips timeline,
             stability = stab\<rparr>))"

section \<open>Non-maximum suppression\<close>

text \<open>
  The \<open>while\<close> loop of \<open>utils.non_max_suppression\<close>: \<open>detections\<close> is what is left of the
  sorted list, \<open>keep\<close> the detections kept so far.
\<close>

function nms_loop :: "real \<Rightarrow> detection list \<Rightarrow> detection list \<Rightarrow> detection list" where
  "nms_loop iou_threshold [] keep = keep"
| "nms_loop iou_threshold (current # detections) keep =
     nms_loop iou_threshold
       (filter (\<lambda>d. calculate_iou (bbox current) (bbox d) \<le> iou_threshold) detections)
       (keep @ [current])"
  by pat_completeness auto
termination
  by (relation "measure (\<lambda>(t, ds, k). length ds)") (auto simp: less_Suc_eq_le)

text \<open>
  \<open>sorted(detections, key=lambda x: x['confidence'], reverse=True)\<close> is stable: detections
  of equal confidence keep their order, as a stable ascending sort on the negated key does.
\<close>

definition non_max_suppression :: "detection list \<Rightarrow> real \<Rightarrow> detection list" where
  "non_max_suppression detections iou_threshold =
     (if detections = [] then []
      else nms_loop iou_threshold (sort_key (\<lambda>x. - confidence x) detections) [])"

text \<open>
  Greedy suppression as the specification words it: keep the top detection, discard the
  remaining ones whose overlap with it exceeds the threshold, repeat.
\<close>

function greedy_suppress :: "real \<Rightarrow> detection list \<Rightarrow> detection list" where
  "greedy_suppress thr [] = []"
| "greedy_suppress thr (best # others) =
     best # greedy_suppress thr
             (filter (\<lambda>d. \<not> calculate_iou (bbox best) (bbox d) > thr) others)"
  by pat_completeness auto
termination
  by (relation "measure (\<lambda>(t, ds). length ds)") (auto simp: less_Suc_eq_le)

definition reference_nms :: "detection list \<Rightarrow> real \<Rightarrow> detection list" where
  "reference_nms detections thr =
     greedy_suppress thr (sort_key (\<lambda>x. - confidence x) detections)"

text \<open>A timeline entry with a given status, for concrete timelines.\<close>

definition entry_with :: "bool \<Rightarrow> timeline_entry" where
  "entry_with b = \<lparr>t_frame = 0, t_is_occupied = b, t_confidence = 1\<rparr>"

text \<open>A car detection with a given box and confidence, for concrete inputs.\<close>

definition car_at :: "box \<Rightarrow> real \<Rightarrow> detection" where
  "car_at b c = \<lparr>bbox = b, confidence = c, class_id = 2, class_name = Some ''car''\<rparr>"

text \<open>\<open>detection.get('class', 'vehicle')\<close>.\<close>

definition class_or_vehicle :: "detection \<Rightarrow> string" where
  "class_or_vehicle d = (case class_name d of Some c \<Rightarrow> c | None \<Rightarrow> ''vehicle'')"

text \<open>The loop state after a detection has been taken as representative.\<close>

definition scan_of :: "detection \<Rightarrow> scan_state" where
  "scan_of d = (True, confidence d, Some (class_or_vehicle d), Some (bbox d))"

text \<open>
  The detections that can become representative: overlap above 0.5 and confidence above
  the initial \<open>best_confidence = 0.0\<close>. The representative is Python's
  \<open>max(qualifying, key=confidence)\<close>: the first one of highest confidence.
\<close>

definition qualifying :: "box \<Rightarrow> detection list \<Rightarrow> detection list" where
  "qualifying sb ds = filter (\<lambda>d. calculate_overlap sb (bbox d) > 0.5 \<and> confidence d > 0) ds"

definition representative :: "box \<Rightarrow> detection list \<Rightarrow> detection option" where
  "representative sb ds =
     (case qualifying sb ds of [] \<Rightarrow> None | q # qs \<Rightarrow> Some (max_by confidence q qs))"

text \<open>Whether the loop over the detections (the primary path) marks the slot occupied.\<close>

definition primary_occupied :: "slot \<Rightarrow> detection list \<Rightarrow> bool" where
  "primary_occupied slt ds = fst (scan_detections (coordinates slt) ds (False, 0, None, None))"

text \<open>The crop \<open>frame[int(y):int(y+h), int(x):int(x+w)]\<close> of a slot.\<close>

definition slot_crop :: "frame \<Rightarrow> slot \<Rightarrow> slot_image" where
  "slot_crop frm slt =
     (case coordinates slt of (x, y, w, h) \<Rightarrow>
        region frm (py_int y) (py_int (y + h)) (py_int x) (py_int (x + w)))"

text \<open>Concrete frames and slots: a frame whose crops are empty, a frame whose crops are
  dark and full of edges, and a slot with a given rectangle.\<close>

definition blank_frame :: frame where
  "blank_frame = \<lparr>shape = (480, 640),
     region = (\<lambda>y0 y1 x0 x1. \<lparr>size_px = 0, edge_density = 0, variance = 0, mean_intensity = 0\<rparr>)\<rparr>"

definition busy_frame :: frame where
  "busy_frame = \<lparr>shape = (480, 640),
     region = (\<lambda>y0 y1 x0 x1.
        \<lparr>size_px = 100, edge_density = 1, variance = 1000, mean_intensity = 0\<rparr>)\<rparr>"

definition slot_at :: "box \<Rightarrow> slot" where
  "slot_at b = \<lparr>s_id = 1, s_slot_number = 1, coordinates = b\<rparr>"

section \<open>Synthetic detections\<close>

text \<open>
  NumPy's global random generator, made explicit: two streams of raw draws and the
  positions reached in them. \<open>np.random.randint(low, high)\<close> raises \<open>ValueError\<close> when
  \<open>low >= high\<close> and otherwise maps the raw draw into \<open>[low, high)\<close>, so every value of
  the range is the outcome of some raw draw; \<open>np.random.uniform(low, high)\<close> maps the
  fractional part of the raw draw into \<open>[low, high)\<close>.
\<close>

record rng =
  int_draws :: "nat \<Rightarrow> int"
  real_draws :: "nat \<Rightarrow> real"
  int_pos :: nat
  real_pos :: nat

definition np_randint :: "int \<Rightarrow> int \<Rightarrow> rng \<Rightarrow> py_error + (int \<times> rng)" where
  "np_randint low high g =
     (if low < high
      then Inr (low + int_draws g (int_pos g) mod (high - low), g\<lparr>int_pos := int_pos g + 1\<rparr>)
      else Inl (ValueError ''low >= high''))"

definition np_uniform :: "real \<Rightarrow> real \<Rightarrow> rng \<Rightarrow> real \<times> rng" where
  "np_uniform low high g =
     (low + (high - low) * frac (real_draws g (real_pos g)), g\<lparr>real_pos := real_pos g + 1\<rparr>)"

text \<open>The \<open>for i in range(num_detections)\<close> loop of \<open>_mock_detect_vehicles\<close>.\<close>

fun mock_loop ::
  "nat \<Rightarrow> int \<Rightarrow> int \<Rightarrow> rng \<Rightarrow> detection list \<Rightarrow> py_error + (detection list \<times> rng)" where
  "mock_loop 0 height width g detections = Inr (detections, g)"
| "mock_loop (Suc n) height width g detections =
     (case np_randint 0 (width - 100) g of Inl e \<Rightarrow> Inl e | Inr (x, g1) \<Rightarrow>
      case np_randint 0 (height - 60) g1 of Inl e \<Rightarrow> Inl e | Inr (y, g2) \<Rightarrow>
      case np_randint 80 150 g2 of Inl e \<Rightarrow> Inl e | Inr (w, g3) \<Rightarrow>
      case np_randint 40 80 g3 of Inl e \<Rightarrow> Inl e | Inr (h, g4) \<Rightarrow>
      case np_uniform 0.6 0.95 g4 of (c, g5) \<Rightarrow>
        mock_loop n height width g5
          (detections @
           [\<lparr>bbox = (real_of_int (min x (width - w)), real_of_int (min y (height - h)),
                     real_of_int w, real_of_int h),
             confidence = c, class_id = 2, class_name = Some ''car''\<rparr>]))"

text \<open>\<open>ParkingDetector._mock_detect_vehicles\<close>.\<close>

definition mock_detect_vehicles :: "frame \<Rightarrow> rng \<Rightarrow> py_error + (detection list \<times> rng)" where
  "mock_detect_vehicles frm g =
     (case shape frm of (height, width) \<Rightarrow>
      case np_randint 0 5 g of Inl e \<Rightarrow> Inl e | Inr (num_detections, g1) \<Rightarrow>
        mock_loop (nat num_detections) (int height) (int width) g1 [])"

text \<open>
  A box lies within the frame; a synthetic detection is as the specification wants it.
\<close>

definition within_frame :: "frame \<Rightarrow> box \<Rightarrow> bool" where
  "within_frame frm b =
     (case shape frm of (height, width) \<Rightarrow>
      case b of (x, y, w, h) \<Rightarrow>
        0 \<le> x \<and> 0 \<le> y \<and> 0 < w \<and> 0 < h \<and> x + w \<le> real width \<and> y + h \<le> real height)"

definition mock_ok :: "frame \<Rightarrow> detection \<Rightarrow> bool" where
  "mock_ok frm d =
     (0.6 \<le> confidence d \<and> confidence d \<le> 0.95 \<and> class_name d = Some ''car''
      \<and> within_frame frm (bbox d))"

text \<open>A frame of a given shape, and a generator with given raw draws.\<close>

definition frame_of_shape :: "nat \<Rightarrow> nat \<Rightarrow> frame" where
  "frame_of_shape height width = \<lparr>shape = (height, width),
     region = (\<lambda>y0 y1 x0 x1. \<lparr>size_px = 0, edge_density = 0, variance = 0, mean_intensity = 0\<rparr>)\<rparr>"

definition rng_of :: "(nat \<Rightarrow> int) \<Rightarrow> (nat \<Rightarrow> real) \<Rightarrow> rng" where
  "rng_of ints reals = \<lparr>int_draws = ints, real_draws = reals, int_pos = 0, real_pos = 0\<rparr>"

section \<open>Video capture\<close>

text \<open>
  An opened \<open>cv2.VideoCapture\<close>: the frames it can decode, the read position and the
  number of \<open>read()\<close> calls made. \<open>read()\<close> returns \<open>(ret, frame)\<close>; here \<open>None\<close> is
  \<open>ret = False\<close>.
\<close>

record capture =
  cap_frames :: "frame list"
  cap_pos :: nat
  cap_reads :: nat

definition cap_read :: "capture \<Rightarrow> frame option \<times> capture" where
  "cap_read c =
     (if cap_pos c < length (cap_frames c)
      then (Some (cap_frames c ! cap_pos c),
            c\<lparr>cap_pos := cap_pos c + 1, cap_reads := cap_reads c + 1\<rparr>)
      else (None, c\<lparr>cap_reads := cap_reads c + 1\<rparr>))"

text \<open>\<open>cap.set(cv2.CAP_PROP_POS_FRAMES, 0)\<close>.\<close>

definition cap_rewind :: "capture \<Rightarrow> capture" where
  "cap_rewind c = c\<lparr>cap_pos := 0\<rparr>"

definition open_capture :: "frame list \<Rightarrow> capture" where
  "open_capture frames = \<lparr>cap_frames = frames, cap_pos = 0, cap_reads = 0\<rparr>"

section \<open>Temporal Aggregator: occupancy pass\<close>

text \<open>
  The lookup-and-patch of the occupancy pass. \<open>existing_slot\<close> is the first retained
  verdict with the slot's id; \<open>existing_slot.update(slot_result)\<close> overwrites that
  dictionary in place, which replaces the first verdict with this id by the new one.
\<close>

fun replace_first :: "('a \<Rightarrow> bool) \<Rightarrow> 'a \<Rightarrow> 'a list \<Rightarrow> 'a list" where
  "replace_first P r [] = []"
| "replace_first P r (s # rest) = (if P s then r # rest else s # replace_first P r rest)"

definition absorb :: "verdict list \<Rightarrow> int \<Rightarrow> verdict \<Rightarrow> verdict list" where
  "absorb slot_dets sid slot_result =
     (case find (\<lambda>s. slot_id s = sid) slot_dets of
        Some existing_slot \<Rightarrow>
          if v_confidence slot_result > v_confidence existing_slot
          then replace_first (\<lambda>s. slot_id s = sid) slot_result slot_dets
          else slot_dets
      | None \<Rightarrow> slot_dets @ [slot_result])"

text \<open>The loop \<open>for slot in slot_config\<close> on one sampled frame.\<close>

definition absorb_frame ::
  "frame \<Rightarrow> detection list \<Rightarrow> slot list \<Rightarrow> verdict list \<Rightarrow> verdict list" where
  "absorb_frame frm detections slot_config slot_dets =
     foldl (\<lambda>acc slt. absorb acc (s_id slt) (analyze_slot_occupancy frm slt detections))
       slot_dets slot_config"

text \<open>
  The \<open>while True\<close> loop of \<open>_process_occupancy_analysis\<close>. The capture is returned in
  every case; an exception of the detector ends the loop.
\<close>

function occupancy_loop ::
  "'d detect_fn \<Rightarrow> slot list \<Rightarrow> nat \<Rightarrow> capture \<Rightarrow> 'd \<Rightarrow> verdict list \<Rightarrow> nat \<Rightarrow> nat
     \<Rightarrow> capture \<times> (py_error + ('d \<times> verdict list \<times> nat))" where
  "occupancy_loop detect slot_config frame_interval cap dt slot_dets processed frame_count =
     (case cap_read cap of
        (None, cap') \<Rightarrow> (cap', Inr (dt, slot_dets, processed))
      | (Some frm, cap') \<Rightarrow>
          if frame_count mod frame_interval = 0 then
            (case detect dt frm of
               Inl e \<Rightarrow> (cap', Inl e)
             | Inr (detections, dt') \<Rightarrow>
                 occupancy_loop detect slot_config frame_interval cap' dt'
                   (absorb_frame frm detections slot_config slot_dets)
                   (processed + 1) (frame_count + 1))
          else
            occupancy_loop detect slot_config frame_interval cap' dt slot_dets processed
              (frame_count + 1))"
  by pat_completeness auto
termination
  by (relation "measure (\<lambda>(detect, slot_config, frame_interval, cap, rest).
                   length (cap_frames cap) - cap_pos cap)")
     (auto simp: cap_read_def split: if_splits)

declare occupancy_loop.simps [simp del]

text \<open>\<open>VideoProcessor._process_occupancy_analysis\<close>.\<close>

definition process_occupancy_analysis ::
  "'d detect_fn \<Rightarrow> slot list \<Rightarrow> capture \<Rightarrow> 'd \<Rightarrow> nat
     \<Rightarrow> capture \<times> (py_error + (verdict results \<times> 'd \<times> nat))" where
  "process_occupancy_analysis detect slot_config cap dt processed =
     (case occupancy_loop detect slot_config 30 cap dt [] processed 0 of
        (cap', Inl e) \<Rightarrow> (cap', Inl e)
      | (cap', Inr (dt', slot_dets, processed')) \<Rightarrow>
          let occupied_slots = length (filter is_occupied slot_dets);
              occ_rate = (if slot_config \<noteq> []
                          then real occupied_slots / real (length slot_config) * 100 else 0);
              confidences = map v_confidence slot_dets;
              avg_confidence = (if confidences \<noteq> []
                                then sum_list confidences / real (length confidences) else 0)
          in (cap', Inr (\<lparr>slot_detections = slot_dets, vehicle_count = occupied_slots,
                          occupancy_rate = occ_rate,
                          confidence_scores =
                            \<lparr>overall = avg_confidence, vehicle_detection = avg_confidence,
                             slot_classification = avg_confidence\<rparr>\<rparr>,
                         dt', processed')))"

section \<open>Temporal Aggregator: duration pass\<close>

text \<open>The dictionary \<open>slot_timeline\<close>, from slot ids to timelines.\<close>

type_synonym timelines = "int \<Rightarrow> timeline_entry list option"

definition initial_timelines :: "slot list \<Rightarrow> timelines" where
  "initial_timelines slot_config = map_of (map (\<lambda>slt. (s_id slt, [])) slot_config)"

text \<open>The loop \<open>for slot in slot_config\<close> on one sampled frame of the duration pass.\<close>

fun record_frame ::
  "frame \<Rightarrow> detection list \<Rightarrow> nat \<Rightarrow> slot list \<Rightarrow> timelines \<Rightarrow> py_error + timelines" where
  "record_frame frm detections frame_count [] slot_timeline = Inr slot_timeline"
| "record_frame frm detections frame_count (slt # rest) slot_timeline =
     (let slot_result = analyze_slot_occupancy frm slt detections in
      case slot_timeline (s_id slt) of
        None \<Rightarrow> Inl KeyError
      | Some entries \<Rightarrow>
          record_frame frm detections frame_count rest
            (slot_timeline(s_id slt \<mapsto>
               entries @ [\<lparr>t_frame = frame_count, t_is_occupied = is_occupied slot_result,
                           t_confidence = v_confidence slot_result\<rparr>])))"

function duration_loop ::
  "'d detect_fn \<Rightarrow> slot list \<Rightarrow> nat \<Rightarrow> capture \<Rightarrow> 'd \<Rightarrow> timelines \<Rightarrow> nat \<Rightarrow> nat
     \<Rightarrow> capture \<times> (py_error + ('d \<times> timelines \<times> nat))" where
  "duration_loop detect slot_config frame_interval cap dt slot_timeline processed frame_count =
     (case cap_read cap of
        (None, cap') \<Rightarrow> (cap', Inr (dt, slot_timeline, processed))
      | (Some frm, cap') \<Rightarrow>
          if frame_count mod frame_interval = 0 then
            (case detect dt frm of
               Inl e \<Rightarrow> (cap', Inl e)
             | Inr (detections, dt') \<Rightarrow>
                 (case record_frame frm detections frame_count slot_config slot_timeline of
                    Inl e \<Rightarrow> (cap', Inl e)
                  | Inr slot_timeline' \<Rightarrow>
                      duration_loop detect slot_config frame_interval cap' dt' slot_timeline'
                        (processed + 1) (frame_count + 1)))
          else
            duration_loop detect slot_config frame_interval cap' dt slot_timeline processed
              (frame_count + 1))"
  by pat_completeness auto
termination
  by (relation "measure (\<lambda>(detect, slot_config, frame_interval, cap, rest).
                   length (cap_frames cap) - cap_pos cap)")
     (auto simp: cap_read_def split: if_splits)

declare duration_loop.simps [simp del]

text \<open>The loop building the per-slot dictionaries from the timelines.\<close>

fun duration_reports :: "slot list \<Rightarrow> timelines \<Rightarrow> py_error + duration_detection list" where
  "duration_reports [] slot_timeline = Inr []"
| "duration_reports (slt # rest) slot_timeline =
     (case slot_timeline (s_id slt) of
        None \<Rightarrow> Inl KeyError
      | Some timeline \<Rightarrow>
          let duration_analysis = analyze_slot_duration timeline in
          case duration_reports rest slot_timeline of
            Inl e \<Rightarrow> Inl e
          | Inr reports \<Rightarrow>
              Inr (\<lparr>d_slot_id = s_id slt, d_slot_number = s_slot_number slt,
                    d_is_occupied = final_status duration_analysis,
                    d_confidence = e_confidence duration_analysis,
                    d_predicted_duration = Some (predicted_duration duration_analysis),
                    occupancy_changes = changes duration_analysis,
                    stability_score = Some (stability duration_analysis)\<rparr> # reports))"

text \<open>\<open>VideoProcessor._process_duration_analysis\<close>.\<close>

definition process_duration_analysis ::
  "'d detect_fn \<Rightarrow> slot list \<Rightarrow> capture \<Rightarrow> 'd \<Rightarrow> nat
     \<Rightarrow> capture \<times> (py_error + (duration_detection results \<times> 'd \<times> nat))" where
  "process_duration_analysis detect slot_config cap dt processed =
     (case duration_loop detect slot_config 15 cap dt (initial_timelines slot_config)
             processed 0 of
        (cap', Inl e) \<Rightarrow> (cap', Inl e)
      | (cap', Inr (dt', slot_timeline, processed')) \<Rightarrow>
          (case duration_reports slot_config slot_timeline of
             Inl e \<Rightarrow> (cap', Inl e)
           | Inr slot_dets \<Rightarrow>
               let occupied_slots = length (filter d_is_occupied slot_dets);
                   occ_rate = (if slot_config \<noteq> []
                               then real occupied_slots / real (length slot_config) * 100
                               else 0)
               in if slot_dets = [] then (cap', Inl ZeroDivisionError)
                  else
                    (cap', Inr (\<lparr>slot_detections = slot_dets, vehicle_count = occupied_slots,
                                 occupancy_rate = occ_rate,
                                 confidence_scores =
                                   \<lparr>overall = sum_list (map d_confidence slot_dets)
                                                / real (length slot_dets),
                                    vehicle_detection = 0.85,
                                    slot_classification = 0.80\<rparr>\<rparr>,
                                dt', processed'))))"

section \<open>Analysis Orchestrator\<close>

text \<open>The body of the merge loop of \<open>_process_full_analysis\<close>, for one slot.\<close>

definition merge_slot :: "slot \<Rightarrow> verdict \<Rightarrow> duration_detection \<Rightarrow> final_detection" where
  "merge_slot slt occupancy_data duration_data =
     \<lparr>f_slot_id = s_id slt, f_slot_number = s_slot_number slt,
      f_is_occupied = is_occupied occupancy_data,
      f_confidence = max (v_confidence occupancy_data) (d_confidence duration_data),
      f_predicted_duration =
        (case d_predicted_duration duration_data of Some p \<Rightarrow> p | None \<Rightarrow> 1800),
      f_vehicle_type = vehicle_type occupancy_data,
      f_detection_box = detection_box occupancy_data,
      f_stability_score =
        (case stability_score duration_data of Some s \<Rightarrow> s | None \<Rightarrow> 0.5)\<rparr>"

text \<open>
  The loop \<open>for i, slot in enumerate(slot_config)\<close>: indexing either list of verdicts
  out of range raises \<open>IndexError\<close>.
\<close>

fun merge_slots ::
  "slot list \<Rightarrow> nat \<Rightarrow> verdict list \<Rightarrow> duration_detection list
     \<Rightarrow> py_error + final_detection list" where
  "merge_slots [] i occ dur = Inr []"
| "merge_slots (slt # rest) i occ dur =
     (if i < length occ \<and> i < length dur then
        (case merge_slots rest (i + 1) occ dur of
           Inl e \<Rightarrow> Inl e
         | Inr merged \<Rightarrow> Inr (merge_slot slt (occ ! i) (dur ! i) # merged))
      else Inl IndexError)"

text \<open>\<open>VideoProcessor._process_full_analysis\<close>.\<close>

definition process_full_analysis ::
  "'d detect_fn \<Rightarrow> slot list \<Rightarrow> capture \<Rightarrow> 'd \<Rightarrow> nat
     \<Rightarrow> capture \<times> (py_error + (final_detection results \<times> 'd \<times> nat))" where
  "process_full_analysis detect slot_config cap dt processed =
     (case process_occupancy_analysis detect slot_config cap dt processed of
        (cap1, Inl e) \<Rightarrow> (cap1, Inl e)
      | (cap1, Inr (occupancy_results, dt1, processed1)) \<Rightarrow>
          (case process_duration_analysis detect slot_config (cap_rewind cap1) dt1 processed1 of
             (cap2, Inl e) \<Rightarrow> (cap2, Inl e)
           | (cap2, Inr (duration_results, dt2, processed2)) \<Rightarrow>
               (case merge_slots slot_config 0 (slot_detections occupancy_results)
                       (slot_detections duration_results) of
                  Inl e \<Rightarrow> (cap2, Inl e)
                | Inr final_detections \<Rightarrow>
                    let occupied_slots = length (filter f_is_occupied final_detections);
                        occ_rate = (if slot_config \<noteq> []
                                    then real occupied_slots / real (length slot_config) * 100
                                    else 0)
                    in (cap2, Inr (\<lparr>slot_detections = final_detections,
                                    vehicle_count = occupied_slots,
                                    occupancy_rate = occ_rate,
                                    confidence_scores =
                                      \<lparr>overall =
                                         (overall (confidence_scores occupancy_results)
                                          + overall (confidence_scores duration_results)) / 2,
                                       vehicle_detection = 0.88,
                                       slot_classification = 0.82\<rparr>\<rparr>,
                                   dt2, processed2)))))"

section \<open>Run invocation\<close>

text \<open>
  The file system and OpenCV as \<open>process_video\<close> sees them: whether a path exists, the
  lower-cased suffix of a path (\<open>Path(video_path).suffix.lower()\<close>), and the frames that
  a capture opened on the path can decode (\<open>None\<close> when the capture does not open). The
  iolog counts the captures opened and the frames read.
\<close>

record world =
  path_exists :: "string \<Rightarrow> bool"
  path_suffix :: "string \<Rightarrow> string"
  video_stream :: "string \<Rightarrow> frame list option"

record io_log =
  video_opens :: nat
  frame_reads :: nat

definition valid_extensions :: "string list" where
  "valid_extensions = [''.mp4'', ''.avi'', ''.mov'', ''.wmv'', ''.flv'', ''.mkv'']"

text \<open>\<open>utils.validate_video_file\<close>.\<close>

definition validate_video_file :: "world \<Rightarrow> io_log \<Rightarrow> string \<Rightarrow> bool \<times> io_log" where
  "validate_video_file w iolog video_path =
     (if \<not> path_exists w video_path then (False, iolog)
      else if path_suffix w video_path \<notin> set valid_extensions then (False, iolog)
      else
        (case video_stream w video_path of
           None \<Rightarrow> (False, iolog\<lparr>video_opens := video_opens iolog + 1\<rparr>)
         | Some frames \<Rightarrow>
             (case cap_read (open_capture frames) of
                (ret, cap') \<Rightarrow>
                  (ret \<noteq> None,
                   iolog\<lparr>video_opens := video_opens iolog + 1,
                       frame_reads := frame_reads iolog + cap_reads cap'\<rparr>))))"

datatype analysis_results =
    OccupancyResults "verdict results"
  | DurationResults "duration_detection results"
  | FullResults "final_detection results"

text \<open>
  The report of \<open>process_video\<close>, without the file name, the times and the frame rate.
\<close>

record report =
  analysis_type :: string
  analysis :: analysis_results
  processed_frames :: nat

definition add_reads :: "io_log \<Rightarrow> capture \<Rightarrow> io_log" where
  "add_reads iolog cap = iolog\<lparr>frame_reads := frame_reads iolog + cap_reads cap\<rparr>"

text \<open>
  \<open>VideoProcessor.process_video\<close>. The detector state and the counter
  \<open>processing_stats['processed_frames']\<close> of the instance are passed in and returned.
\<close>

definition process_video ::
  "world \<Rightarrow> io_log \<Rightarrow> 'd detect_fn \<Rightarrow> 'd \<Rightarrow> nat \<Rightarrow> string \<Rightarrow> slot list \<Rightarrow> string
     \<Rightarrow> io_log \<times> (py_error + (report \<times> 'd \<times> nat))" where
  "process_video w iolog detect dt processed video_path slot_config atype =
     (case validate_video_file w iolog video_path of
        (valid, iolog1) \<Rightarrow>
          if \<not> valid then (iolog1, Inl (ValueError (''Invalid video file: '' @ video_path)))
          else if slot_config = [] then
            (iolog1, Inl (ValueError ''Slot configuration is required''))
          else
            (case video_stream w video_path of
               None \<Rightarrow>
                 (iolog1\<lparr>video_opens := video_opens iolog1 + 1\<rparr>,
                  Inl (ValueError (''Cannot open video file: '' @ video_path)))
             | Some frames \<Rightarrow>
                 let cap = open_capture frames;
                     iolog2 = iolog1\<lparr>video_opens := video_opens iolog1 + 1\<rparr>
                 in if atype = ''occupancy'' then
                      (case process_occupancy_analysis detect slot_config cap dt processed of
                         (cap', Inl e) \<Rightarrow> (add_reads iolog2 cap', Inl e)
                       | (cap', Inr (res, dt', processed')) \<Rightarrow>
                           (add_reads iolog2 cap',
                            Inr (\<lparr>analysis_type = atype, analysis = OccupancyResults res,
                                  processed_frames = processed'\<rparr>, dt', processed')))
                    else if atype = ''duration'' then
                      (case process_duration_analysis detect slot_config cap dt processed of
                         (cap', Inl e) \<Rightarrow> (add_reads iolog2 cap', Inl e)
                       | (cap', Inr (res, dt', processed')) \<Rightarrow>
                           (add_reads iolog2 cap',
                            Inr (\<lparr>analysis_type = atype, analysis = DurationResults res,
                                  processed_frames = processed'\<rparr>, dt', processed')))
                    else
                      (case process_full_analysis detect slot_config cap dt processed of
                         (cap', Inl e) \<Rightarrow> (add_reads iolog2 cap', Inl e)
                       | (cap', Inr (res, dt', processed')) \<Rightarrow>
                           (add_reads iolog2 cap',
                            Inr (\<lparr>analysis_type = atype, analysis = FullResults res,
                                  processed_frames = processed'\<rparr>, dt', processed')))))"

text \<open>A world with one readable video of three blank frames, and a detector that finds
  nothing.\<close>

definition lot_world :: world where
  "lot_world =
     \<lparr>path_exists = (\<lambda>p. p = ''lot.mp4''),
      path_suffix = (\<lambda>p. ''.mp4''),
      video_stream = (\<lambda>p. if p = ''lot.mp4''
                            then Some [blank_frame, blank_frame, blank_frame] else None)\<rparr>"

definition no_detections :: "unit detect_fn" where
  "no_detections dt frm = Inr ([], dt)"

section \<open>Sampling\<close>

text \<open>
  Sampling as the specification words it: the frames, numbered from 0, whose number is a
  multiple of the interval.
\<close>

definition every_nth :: "nat \<Rightarrow> 'a list \<Rightarrow> (nat \<times> 'a) list" where
  "every_nth n frames = filter (\<lambda>(i, f). i mod n = 0) (zip [0..<length frames] frames)"

text \<open>
  The occupancy and duration passes on frames that are all passed through the detector
  and the classifier.
\<close>

fun occupancy_on_frames ::
  "'d detect_fn \<Rightarrow> slot list \<Rightarrow> frame list \<Rightarrow> 'd \<Rightarrow> verdict list \<Rightarrow> nat
     \<Rightarrow> py_error + ('d \<times> verdict list \<times> nat)" where
  "occupancy_on_frames detect slot_config [] dt slot_dets processed =
     Inr (dt, slot_dets, processed)"
| "occupancy_on_frames detect slot_config (frm # rest) dt slot_dets processed =
     (case detect dt frm of
        Inl e \<Rightarrow> Inl e
      | Inr (detections, dt') \<Rightarrow>
          occupancy_on_frames detect slot_config rest dt'
            (absorb_frame frm detections slot_config slot_dets) (processed + 1))"

fun duration_on_frames ::
  "'d detect_fn \<Rightarrow> slot list \<Rightarrow> (nat \<times> frame) list \<Rightarrow> 'd \<Rightarrow> timelines \<Rightarrow> nat
     \<Rightarrow> py_error + ('d \<times> timelines \<times> nat)" where
  "duration_on_frames detect slot_config [] dt slot_timeline processed =
     Inr (dt, slot_timeline, processed)"
| "duration_on_frames detect slot_config ((i, frm) # rest) dt slot_timeline processed =
     (case detect dt frm of
        Inl e \<Rightarrow> Inl e
      | Inr (detections, dt') \<Rightarrow>
          (case record_frame frm detections i slot_config slot_timeline of
             Inl e \<Rightarrow> Inl e
           | Inr slot_timeline' \<Rightarrow>
               duration_on_frames detect slot_config rest dt' slot_timeline' (processed + 1)))"

text \<open>The same sampling when the numbering starts at \<open>fc\<close>.\<close>

definition sampled_from :: "nat \<Rightarrow> nat \<Rightarrow> 'a list \<Rightarrow> (nat \<times> 'a) list" where
  "sampled_from n fc frames =
     filter (\<lambda>(i, f). i mod n = 0) (zip [fc..<fc + length frames] frames)"

section \<open>The passes as the specification words them\<close>

text \<open>
  What the passes compute, worded from the specification. The detector is run on a list
  of frames in order, its state threaded through; the classifier is run on every frame
  of the list and every slot; the occupancy pass folds these verdicts with the
  overwrite-if-better rule, the duration pass collects for every slot id the entries of
  the slots with this id.
\<close>

fun detections_on ::
  "'d detect_fn \<Rightarrow> frame list \<Rightarrow> 'd \<Rightarrow> py_error + (detection list list \<times> 'd)" where
  "detections_on detect [] dt = Inr ([], dt)"
| "detections_on detect (frm # rest) dt =
     (case detect dt frm of
        Inl e \<Rightarrow> Inl e
      | Inr (ds, dt') \<Rightarrow>
          (case detections_on detect rest dt' of
             Inl e \<Rightarrow> Inl e
           | Inr (dss, dt'') \<Rightarrow> Inr (ds # dss, dt'')))"

definition frame_verdicts :: "slot list \<Rightarrow> (frame \<times> detection list) list \<Rightarrow> verdict list" where
  "frame_verdicts slot_config fds =
     concat (map (\<lambda>(frm, ds). map (\<lambda>slt. analyze_slot_occupancy frm slt ds) slot_config) fds)"

definition absorb_verdict :: "verdict list \<Rightarrow> verdict \<Rightarrow> verdict list" where
  "absorb_verdict slot_dets v = absorb slot_dets (slot_id v) v"

definition best_verdict :: "int \<Rightarrow> verdict list \<Rightarrow> verdict option" where
  "best_verdict k obs =
     (case filter (\<lambda>w. slot_id w = k) obs of
        [] \<Rightarrow> None
      | q # qs \<Rightarrow> Some (max_by v_confidence q qs))"

definition occupancy_summary :: "slot list \<Rightarrow> verdict list \<Rightarrow> verdict results" where
  "occupancy_summary slot_config slot_dets =
     (let avg = (if slot_dets = [] then 0
                 else sum_list (map v_confidence slot_dets) / real (length slot_dets))
      in \<lparr>slot_detections = slot_dets,
          vehicle_count = length (filter is_occupied slot_dets),
          occupancy_rate =
            (if slot_config = [] then 0
             else real (length (filter is_occupied slot_dets)) / real (length slot_config) * 100),
          confidence_scores =
            \<lparr>overall = avg, vehicle_detection = avg, slot_classification = avg\<rparr>\<rparr>)"

definition entry_of :: "nat \<Rightarrow> verdict \<Rightarrow> timeline_entry" where
  "entry_of i v = \<lparr>t_frame = i, t_is_occupied = is_occupied v, t_confidence = v_confidence v\<rparr>"

definition frame_entries :: "slot list \<Rightarrow> int \<Rightarrow> nat \<Rightarrow> frame \<Rightarrow> detection list \<Rightarrow> timeline_entry list" where
  "frame_entries slot_config k i frm ds =
     map (\<lambda>slt. entry_of i (analyze_slot_occupancy frm slt ds))
       (filter (\<lambda>slt. s_id slt = k) slot_config)"

definition slot_entries ::
  "slot list \<Rightarrow> ((nat \<times> frame) \<times> detection list) list \<Rightarrow> int \<Rightarrow> timeline_entry list" where
  "slot_entries slot_config fds k =
     concat (map (\<lambda>((i, frm), ds). frame_entries slot_config k i frm ds) fds)"

definition duration_report :: "slot \<Rightarrow> estimate \<Rightarrow> duration_detection" where
  "duration_report slt est =
     \<lparr>d_slot_id = s_id slt, d_slot_number = s_slot_number slt,
      d_is_occupied = final_status est, d_confidence = e_confidence est,
      d_predicted_duration = Some (predicted_duration est),
      occupancy_changes = changes est, stability_score = Some (stability est)\<rparr>"

definition duration_summary :: "slot list \<Rightarrow> duration_detection list \<Rightarrow> duration_detection results" where
  "duration_summary slot_config slot_dets =
     \<lparr>slot_detections = slot_dets,
      vehicle_count = length (filter d_is_occupied slot_dets),
      occupancy_rate =
        (if slot_config = [] then 0
         else real (length (filter d_is_occupied slot_dets)) / real (length slot_config) * 100),
      confidence_scores =
        \<lparr>overall = sum_list (map d_confidence slot_dets) / real (length slot_dets),
         vehicle_detection = 0.85, slot_classification = 0.80\<rparr>\<rparr>"

section \<open>The overlap in floating point\<close>

text \<open>
  Python floats are IEEE binary64 numbers, and every arithmetic operation returns the
  double nearest to the exact result, ties going to the even mantissa. \<open>fl\<close> is this
  rounding for the reals of the normal range (overflow and subnormal numbers are not
  modelled): the exact value is scaled so that its mantissa has 53 bits, rounded to an
  integer and scaled back. \<open>calculate_iou_double\<close> is \<open>calculate_iou\<close> with each
  operation of the source rounded; \<open>max\<close>, \<open>min\<close> and the comparisons are exact.
\<close>

definition pow2 :: "int \<Rightarrow> real" where
  "pow2 e = (if 0 \<le> e then 2 ^ nat e else 1 / 2 ^ nat (- e))"

definition round_half_even :: "real \<Rightarrow> int" where
  "round_half_even x =
     (let f = \<lfloor>x\<rfloor>; d = x - of_int f
      in if d < 1 / 2 then f else if d > 1 / 2 then f + 1
         else if even f then f else f + 1)"

definition binade :: "real \<Rightarrow> int" where
  "binade x = \<lfloor>log 2 \<bar>x\<bar>\<rfloor>"

definition fl :: "real \<Rightarrow> real" where
  "fl x = (if x = 0 then 0
           else of_int (round_half_even (x / pow2 (binade x - 52))) * pow2 (binade x - 52))"

definition calculate_iou_double :: "box \<Rightarrow> box \<Rightarrow> real" where
  "calculate_iou_double box1 box2 =
     (case box1 of (x1, y1, w1, h1) \<Rightarrow>
      case box2 of (x2, y2, w2, h2) \<Rightarrow>
        let left = max x1 x2;
            top = max y1 y2;
            right = min (fl (x1 + w1)) (fl (x2 + w2));
            bottom = min (fl (y1 + h1)) (fl (y2 + h2))
        in if left < right \<and> top < bottom then
             (let intersection = fl (fl (right - left) * fl (bottom - top));
                  area1 = fl (w1 * h1);
                  area2 = fl (w2 * h2);
                  union = fl (fl (area1 + area2) - intersection)
              in if union > 0 then fl (intersection / union) else 0)
           else 0)"

text \<open>The doubles written \<open>0.1\<close> and \<open>0.2\<close>.\<close>

definition d01 :: real where "d01 = 7205759403792794 / 2 ^ 56"
definition d02 :: real where "d02 = 7205759403792794 / 2 ^ 55"

text \<open>The slot ids in the order of their first occurrence.\<close>

definition note_id :: "int list \<Rightarrow> int \<Rightarrow> int list" where
  "note_id acc k = (if k \<in> set acc then acc else acc @ [k])"

section \<open>Properties of the overlap\<close>

lemma calculate_overlap_eq_iou: "calculate_overlap a b = calculate_iou a b"
  by (simp add: calculate_overlap_def calculate_iou_def)

lemma iou_unfold:
  "calculate_iou a b =
     (if boxes_meet a b then
        (if box_area a + box_area b - inter_area a b > 0
         then inter_area a b / (box_area a + box_area b - inter_area a b) else 0)
      else 0)"
  by (cases a, cases b)
     (simp add: calculate_iou_def boxes_meet_def box_area_def inter_area_def Let_def)

lemma boxes_meet_sym: "boxes_meet a b = boxes_meet b a"
  by (cases a, cases b) (auto simp: boxes_meet_def)

lemma inter_area_sym: "inter_area a b = inter_area b a"
  by (cases a, cases b) (simp add: inter_area_def max.commute min.commute)

lemma inter_area_pos: "boxes_meet a b \<Longrightarrow> 0 < inter_area a b"
  by (cases a, cases b) (simp add: boxes_meet_def inter_area_def)

lemma meet_dims_pos:
  assumes "boxes_meet (x1, y1, w1, h1) (x2, y2, w2, h2)"
  shows "0 < w1" "0 < h1" "0 < w2" "0 < h2"
  using assms by (auto simp: boxes_meet_def)

lemma inter_area_le_left:
  assumes "boxes_meet a b"
  shows "inter_area a b \<le> box_area a"
proof -
  obtain x1 y1 w1 h1 where a: "a = (x1, y1, w1, h1)" by (cases a)
  obtain x2 y2 w2 h2 where b: "b = (x2, y2, w2, h2)" by (cases b)
  let ?dx = "min (x1 + w1) (x2 + w2) - max x1 x2"
  let ?dy = "min (y1 + h1) (y2 + h2) - max y1 y2"
  from assms a b have px: "0 < ?dx" and py: "0 < ?dy"
    by (simp_all add: boxes_meet_def)
  have lx: "?dx \<le> w1" and ly: "?dy \<le> h1" by auto
  have "?dx * ?dy \<le> w1 * h1"
    using px py lx ly by (intro mult_mono) auto
  then show ?thesis by (simp add: a b inter_area_def box_area_def)
qed

lemma inter_area_le_right:
  assumes "boxes_meet a b"
  shows "inter_area a b \<le> box_area b"
  using inter_area_le_left [of b a] assms
  by (simp add: inter_area_sym [of a b] boxes_meet_sym [of a b])

lemma union_pos:
  assumes "boxes_meet a b"
  shows "0 < box_area a + box_area b - inter_area a b"
  using inter_area_le_left [OF assms] inter_area_le_right [OF assms] inter_area_pos [OF assms]
  by linarith

lemma iou_when_meet:
  "boxes_meet a b \<Longrightarrow>
     calculate_iou a b = inter_area a b / (box_area a + box_area b - inter_area a b)"
  using union_pos [of a b] by (simp add: iou_unfold)

lemma iou_sym: "calculate_iou a b = calculate_iou b a"
  by (simp add: iou_unfold boxes_meet_sym [of a b] inter_area_sym [of a b] add.commute)

lemma iou_nonneg: "0 \<le> calculate_iou a b"
proof (cases "boxes_meet a b")
  case True
  then show ?thesis
    using inter_area_pos [OF True] union_pos [OF True] by (simp add: iou_when_meet)
next
  case False
  then show ?thesis by (simp add: iou_unfold)
qed

lemma iou_le_one: "calculate_iou a b \<le> 1"
proof (cases "boxes_meet a b")
  case True
  have "inter_area a b \<le> box_area a + box_area b - inter_area a b"
    using inter_area_le_left [OF True] inter_area_le_right [OF True] by linarith
  then show ?thesis
    using union_pos [OF True] by (simp add: iou_when_meet True)
next
  case False
  then show ?thesis by (simp add: iou_unfold)
qed

lemma iou_self:
  assumes "0 < w" "0 < h"
  shows "calculate_iou (x, y, w, h) (x, y, w, h) = 1"
  using assms by (simp add: calculate_iou_def)

lemma iou_degenerate_left:
  assumes "w \<le> 0 \<or> h \<le> 0"
  shows "calculate_iou (x, y, w, h) b = 0"
  using assms by (cases b) (auto simp: calculate_iou_def Let_def)

lemma meet_common_point:
  assumes "boxes_meet a b"
  shows "interior_pts a \<inter> interior_pts b \<noteq> {}"
proof -
  obtain x1 y1 w1 h1 where a: "a = (x1, y1, w1, h1)" by (cases a)
  obtain x2 y2 w2 h2 where b: "b = (x2, y2, w2, h2)" by (cases b)
  let ?l = "max x1 x2" and ?r = "min (x1 + w1) (x2 + w2)"
  let ?t = "max y1 y2" and ?u = "min (y1 + h1) (y2 + h2)"
  from assms a b have lr: "?l < ?r" and tu: "?t < ?u"
    by (simp_all add: boxes_meet_def)
  have mid: "l < (l + r) / 2 \<and> (l + r) / 2 < r" if "l < r" for l r :: real
    using that by (simp add: field_simps)
  define px where "px = (?l + ?r) / 2"
  define py where "py = (?t + ?u) / 2"
  have "?l < px" "px < ?r" "?t < py" "py < ?u"
    using mid [OF lr] mid [OF tu] by (simp_all add: px_def py_def)
  then have "x1 < px" "x2 < px" "px < x1 + w1" "px < x2 + w2"
    "y1 < py" "y2 < py" "py < y1 + h1" "py < y2 + h2"
    by linarith+
  then have "(px, py) \<in> interior_pts a \<inter> interior_pts b"
    unfolding a b interior_pts_def by simp
  then show ?thesis by blast
qed

lemma iou_disjoint:
  assumes "interior_pts a \<inter> interior_pts b = {}"
  shows "calculate_iou a b = 0"
  using assms meet_common_point [of a b] by (auto simp: iou_unfold)

text \<open>
  In exact arithmetic the overlap (both \<open>calculate_iou\<close> and the video processor's
  \<open>_calculate_overlap\<close>) is symmetric and lies between 0 and 1; a box of positive width
  and height overlaps itself with value 1; boxes whose interiors share no point have
  overlap 0; a box of width or height at most 0 has overlap 0 with every box; and the
  division is only reached with positive areas, a positive intersection and a positive
  union. The rounding of the floating-point operations is treated separately below.
\<close>

theorem overlap_utility_contract:
  "calculate_iou a b = calculate_iou b a \<and> 0 \<le> calculate_iou a b \<and> calculate_iou a b \<le> 1
   \<and> calculate_overlap a b = calculate_overlap b a
   \<and> 0 \<le> calculate_overlap a b \<and> calculate_overlap a b \<le> 1
   \<and> (0 < w \<and> 0 < h \<longrightarrow>
        calculate_iou (x, y, w, h) (x, y, w, h) = 1
        \<and> calculate_overlap (x, y, w, h) (x, y, w, h) = 1)
   \<and> (interior_pts a \<inter> interior_pts b = {} \<longrightarrow>
        calculate_iou a b = 0 \<and> calculate_overlap a b = 0)
   \<and> (w \<le> 0 \<or> h \<le> 0 \<longrightarrow>
        calculate_iou (x, y, w, h) b = 0 \<and> calculate_iou b (x, y, w, h) = 0
        \<and> calculate_overlap (x, y, w, h) b = 0 \<and> calculate_overlap b (x, y, w, h) = 0)
   \<and> (boxes_meet a b \<longrightarrow>
        0 < inter_area a b \<and> 0 < box_area a \<and> 0 < box_area b
        \<and> 0 < box_area a + box_area b - inter_area a b
        \<and> calculate_iou a b = inter_area a b / (box_area a + box_area b - inter_area a b))
   \<and> (\<not> boxes_meet a b \<longrightarrow> calculate_iou a b = 0)"
proof -
  have sym: "calculate_iou a b = calculate_iou b a" by (rule iou_sym)
  have self: "0 < w \<and> 0 < h \<longrightarrow> calculate_iou (x, y, w, h) (x, y, w, h) = 1"
    by (simp add: iou_self)
  have disj: "interior_pts a \<inter> interior_pts b = {} \<longrightarrow> calculate_iou a b = 0"
    by (simp add: iou_disjoint)
  have deg: "w \<le> 0 \<or> h \<le> 0 \<longrightarrow>
        calculate_iou (x, y, w, h) b = 0 \<and> calculate_iou b (x, y, w, h) = 0"
    using iou_degenerate_left [of w h x y b] iou_sym [of b "(x, y, w, h)"] by auto
  have areas: "0 < box_area a \<and> 0 < box_area b" if "boxes_meet a b"
    using inter_area_pos [OF that] inter_area_le_left [OF that] inter_area_le_right [OF that]
    by linarith
  have meet: "boxes_meet a b \<longrightarrow>
        0 < inter_area a b \<and> 0 < box_area a \<and> 0 < box_area b
        \<and> 0 < box_area a + box_area b - inter_area a b
        \<and> calculate_iou a b = inter_area a b / (box_area a + box_area b - inter_area a b)"
    using inter_area_pos [of a b] union_pos [of a b] iou_when_meet [of a b] areas by blast
  have nomeet: "\<not> boxes_meet a b \<longrightarrow> calculate_iou a b = 0"
    by (simp add: iou_unfold)
  show ?thesis
    unfolding calculate_overlap_eq_iou
    using sym iou_nonneg [of a b] iou_le_one [of a b] self disj deg meet nomeet by blast
qed

theorem overlap_utility_contract_witness:
  "(0 < (2::real) \<and> 0 < (3::real)) \<and> calculate_iou (1, 1, 2, 3) (1, 1, 2, 3) = 1
   \<and> interior_pts (0, 0, 1, 1) \<inter> interior_pts (2, 2, 1, 1) = {}
   \<and> calculate_iou (0, 0, 1, 1) (2, 2, 1, 1) = 0
   \<and> ((0::real) \<le> 0 \<or> (5::real) \<le> 0) \<and> calculate_iou (0, 0, 0, 5) (0, 0, 1, 1) = 0
   \<and> boxes_meet (0, 0, 2, 2) (1, 1, 2, 2)
   \<and> calculate_iou (0, 0, 2, 2) (1, 1, 2, 2) = 1 / 7
   \<and> \<not> boxes_meet (0, 0, 1, 1) (2, 2, 1, 1)"
proof -
  have d: "interior_pts (0, 0, 1, 1) \<inter> interior_pts (2, 2, 1, 1) = {}"
    by (auto simp: interior_pts_def)
  have m: "boxes_meet (0, 0, 2, 2) (1, 1, 2, 2)" by (simp add: boxes_meet_def)
  have n: "\<not> boxes_meet (0, 0, 1, 1) (2, 2, 1, 1)" by (simp add: boxes_meet_def)
  have v: "inter_area (0, 0, 2, 2) (1, 1, 2, 2) = 1" "box_area (0, 0, 2, 2) = 4"
    "box_area (1, 1, 2, 2) = 4"
    by (simp_all add: inter_area_def box_area_def)
  show ?thesis
    using overlap_utility_contract [of "(0, 0, 1, 1)" "(2, 2, 1, 1)" 2 3 1 1]
      overlap_utility_contract [of "(0, 0, 2, 2)" "(1, 1, 2, 2)" 0 5 0 0]
      overlap_utility_contract [of "(0, 0, 1, 1)" "(0, 0, 1, 1)" 0 5 0 0]
      d m n v by simp
qed

section \<open>Properties of the estimator\<close>

lemma count_changes_flips:
  "count_changes c (t_is_occupied e0) es =
     c + length (filter (\<lambda>(a, b). t_is_occupied a \<noteq> t_is_occupied b) (zip (e0 # es) es))"
proof (induction es arbitrary: c e0)
  case Nil
  then show ?case by simp
next
  case (Cons e es)
  show ?case
  proof (cases "t_is_occupied e = t_is_occupied e0")
    case True
    then show ?thesis using Cons.IH [of c e] by simp
  next
    case False
    then show ?thesis using Cons.IH [of "c + 1" e] by simp
  qed
qed

lemma majority_real: "(real m > real n / 2) = (2 * m > n)"
proof -
  have "(real m > real n / 2) = (real n < real (2 * m))" by (simp add: field_simps)
  also have "\<dots> = (n < 2 * m)" by (rule of_nat_less_iff)
  finally show ?thesis .
qed

text \<open>
  Claim C1. For every timeline the estimator returns the reference estimate: the changes
  are the adjacent entries whose status differs, the stability is
  \<open>max 0 (1 - changes / length)\<close>, the final status is a strict majority (so seven
  entries with four occupied give an occupied slot), the predicted duration is 3600 when
  occupied with stability above 0.8, 1800 when occupied otherwise and 0 when unoccupied,
  the confidence is the mean confidence times the stability, and the empty timeline gives
  stability 0, unoccupied, confidence 0.5 and duration 1800.
\<close>

theorem analyze_slot_duration_reference:
  "analyze_slot_duration timeline = reference_estimate timeline
   \<and> (length timeline = 7 \<and> length (filter t_is_occupied timeline) = 4 \<longrightarrow>
        final_status (analyze_slot_duration timeline))
   \<and> (timeline = [] \<longrightarrow>
        stability (analyze_slot_duration timeline) = 0
        \<and> \<not> final_status (analyze_slot_duration timeline)
        \<and> e_confidence (analyze_slot_duration timeline) = 0.5
        \<and> predicted_duration (analyze_slot_duration timeline) = 1800)"
proof -
  have eq: "analyze_slot_duration timeline = reference_estimate timeline"
  proof (cases timeline)
    case Nil
    then show ?thesis by (simp add: analyze_slot_duration_def reference_estimate_def)
  next
    case (Cons first rest)
    have flips: "count_changes 0 (t_is_occupied first) rest = adjacent_flips timeline"
      by (simp add: count_changes_flips adjacent_flips_def Cons)
    show ?thesis
      unfolding analyze_slot_duration_def reference_estimate_def Cons list.case
      unfolding flips [unfolded Cons] Let_def majority_real
      by simp
  qed
  have seven: "final_status (analyze_slot_duration timeline)"
    if "length timeline = 7" "length (filter t_is_occupied timeline) = 4"
  proof -
    from that have "timeline \<noteq> []" by auto
    then show ?thesis using that
      by (simp add: eq reference_estimate_def Let_def)
  qed
  have empty: "timeline = [] \<longrightarrow>
        stability (analyze_slot_duration timeline) = 0
        \<and> \<not> final_status (analyze_slot_duration timeline)
        \<and> e_confidence (analyze_slot_duration timeline) = 0.5
        \<and> predicted_duration (analyze_slot_duration timeline) = 1800"
    by (simp add: analyze_slot_duration_def)
  show ?thesis using eq seven empty by blast
qed

theorem analyze_slot_duration_reference_witness:
  "length [entry_with True, entry_with False, entry_with True, entry_with False, entry_with True, entry_with False, entry_with True] = 7
   \<and> length (filter t_is_occupied
        [entry_with True, entry_with False, entry_with True, entry_with False, entry_with True, entry_with False, entry_with True]) = 4
   \<and> final_status (analyze_slot_duration
        [entry_with True, entry_with False, entry_with True, entry_with False, entry_with True, entry_with False, entry_with True])
   \<and> predicted_duration (analyze_slot_duration []) = 1800"
proof -
  let ?tl = "[entry_with True, entry_with False, entry_with True, entry_with False, entry_with True, entry_with False, entry_with True]"
  have h1: "length ?tl = 7" by simp
  have h2: "length (filter t_is_occupied ?tl) = 4" by (simp add: entry_with_def)
  have "final_status (analyze_slot_duration ?tl)"
    using analyze_slot_duration_reference [of ?tl] h1 h2 by blast
  moreover have "predicted_duration (analyze_slot_duration []) = 1800"
    using analyze_slot_duration_reference [of "[]"] by blast
  ultimately show ?thesis using h1 h2 by blast
qed

section \<open>Properties of non-maximum suppression\<close>

lemma nms_loop_greedy: "nms_loop thr ds keep = keep @ greedy_suppress thr ds"
proof (induction thr ds keep rule: nms_loop.induct)
  case (1 iou_threshold keep)
  then show ?case by simp
next
  case (2 iou_threshold current detections keep)
  then show ?case by (simp add: not_less)
qed

lemma nms_reference: "non_max_suppression ds thr = reference_nms ds thr"
  by (simp add: non_max_suppression_def reference_nms_def nms_loop_greedy)

lemma greedy_subset: "set (greedy_suppress thr ds) \<subseteq> set ds"
proof (induction thr ds rule: greedy_suppress.induct)
  case (1 thr)
  then show ?case by simp
next
  case (2 thr best others)
  then show ?case by auto
qed

lemma greedy_sorted:
  "sorted (map f ds) \<Longrightarrow> sorted (map f (greedy_suppress thr ds))"
proof (induction thr ds rule: greedy_suppress.induct)
  case (1 thr)
  then show ?case by simp
next
  case (2 thr best others)
  let ?ys = "filter (\<lambda>d. \<not> calculate_iou (bbox best) (bbox d) > thr) others"
  from "2.prems" have so: "sorted (map f others)" and le: "\<forall>d \<in> set others. f best \<le> f d"
    by auto
  have "sorted (map f ?ys)" using so by (rule sorted_filter)
  then have "sorted (map f (greedy_suppress thr ?ys))" by (rule "2.IH")
  moreover have "\<forall>d \<in> set (greedy_suppress thr ?ys). f best \<le> f d"
    using greedy_subset [of thr ?ys] le by auto
  ultimately show ?case by simp
qed

lemma greedy_idem: "greedy_suppress thr (greedy_suppress thr ds) = greedy_suppress thr ds"
proof (induction thr ds rule: greedy_suppress.induct)
  case (1 thr)
  then show ?case by simp
next
  case (2 thr best others)
  let ?P = "\<lambda>d. \<not> calculate_iou (bbox best) (bbox d) > thr"
  let ?ys = "filter ?P others"
  have "\<forall>d \<in> set (greedy_suppress thr ?ys). ?P d"
    using greedy_subset [of thr ?ys] by auto
  then have "filter ?P (greedy_suppress thr ?ys) = greedy_suppress thr ?ys"
    by (simp only: filter_id_conv)
  then show ?case using "2.IH" by simp
qed

lemma greedy_pairwise:
  "sorted_wrt (\<lambda>a b. calculate_iou (bbox a) (bbox b) \<le> thr) (greedy_suppress thr ds)"
proof (induction thr ds rule: greedy_suppress.induct)
  case (1 thr)
  then show ?case by simp
next
  case (2 thr best others)
  let ?ys = "filter (\<lambda>d. \<not> calculate_iou (bbox best) (bbox d) > thr) others"
  have "\<forall>d \<in> set (greedy_suppress thr ?ys). calculate_iou (bbox best) (bbox d) \<le> thr"
    using greedy_subset [of thr ?ys] by auto
  then show ?case using "2.IH" by simp
qed

text \<open>
  Claim C8. Non-maximum suppression is the greedy algorithm on the detections sorted by
  descending confidence (keep the first, drop the others whose overlap with it exceeds the
  threshold, repeat), and it is idempotent: applied to its own output it returns that
  output. The output is sorted by descending confidence, consists of input detections,
  and no kept detection overlaps a later kept one by more than the threshold.
\<close>

theorem nms_greedy_idempotent:
  "non_max_suppression detections thr = reference_nms detections thr
   \<and> non_max_suppression (non_max_suppression detections thr) thr
       = non_max_suppression detections thr
   \<and> sorted (map (\<lambda>d. - confidence d) (non_max_suppression detections thr))
   \<and> set (non_max_suppression detections thr) \<subseteq> set detections
   \<and> sorted_wrt (\<lambda>a b. calculate_iou (bbox a) (bbox b) \<le> thr)
        (non_max_suppression detections thr)"
proof -
  let ?f = "\<lambda>d. - confidence d"
  let ?s = "sort_key ?f detections"
  let ?out = "greedy_suppress thr ?s"
  have out: "non_max_suppression detections thr = ?out"
    by (simp add: nms_reference reference_nms_def)
  have so: "sorted (map ?f ?out)" by (rule greedy_sorted) simp
  then have "sort_key ?f ?out = ?out" by (rule sort_key_id_if_sorted)
  then have "non_max_suppression ?out thr = ?out"
    by (simp add: nms_reference reference_nms_def greedy_idem)
  moreover have "set ?out \<subseteq> set detections"
    using greedy_subset [of thr ?s] by simp
  ultimately show ?thesis
    using so greedy_pairwise [of thr ?s] by (simp add: nms_reference reference_nms_def)
qed

theorem nms_greedy_idempotent_witness:
  "non_max_suppression
     [car_at (20, 20, 5, 5) 0.7, car_at (1, 1, 10, 10) 0.8, car_at (0, 0, 10, 10) 0.9] 0.5
     = [car_at (0, 0, 10, 10) 0.9, car_at (20, 20, 5, 5) 0.7]
   \<and> non_max_suppression
       (non_max_suppression
         [car_at (20, 20, 5, 5) 0.7, car_at (1, 1, 10, 10) 0.8, car_at (0, 0, 10, 10) 0.9] 0.5)
       0.5
     = [car_at (0, 0, 10, 10) 0.9, car_at (20, 20, 5, 5) 0.7]"
proof -
  let ?ds = "[car_at (20, 20, 5, 5) 0.7, car_at (1, 1, 10, 10) 0.8, car_at (0, 0, 10, 10) 0.9]"
  have v: "non_max_suppression ?ds 0.5
             = [car_at (0, 0, 10, 10) 0.9, car_at (20, 20, 5, 5) 0.7]"
    by (simp add: non_max_suppression_def car_at_def calculate_iou_def)
  have "non_max_suppression (non_max_suppression ?ds 0.5) 0.5 = non_max_suppression ?ds 0.5"
    using nms_greedy_idempotent [of ?ds "0.5"] by blast
  then show ?thesis using v by simp
qed

section \<open>Properties of the classifier\<close>

lemma max_by_mem: "max_by key b xs \<in> set (b # xs)"
  by (induction xs arbitrary: b) auto

lemma max_by_ge_start: "key b \<le> key (max_by key b xs)"
proof (induction xs arbitrary: b)
  case Nil
  then show ?case by simp
next
  case (Cons x xs)
  show ?case using Cons.IH [of x] Cons.IH [of b] by (auto intro: order_trans)
qed

lemma max_by_ge: "x \<in> set (b # xs) \<Longrightarrow> key x \<le> key (max_by key b xs)"
proof (induction xs arbitrary: b)
  case Nil
  then show ?case by simp
next
  case (Cons y ys)
  show ?case
  proof (cases "key y > key b")
    case True
    have "key b \<le> key (max_by key y ys)"
      using max_by_ge_start [of key y ys] True by linarith
    then show ?thesis using Cons.prems Cons.IH [of y] True by auto
  next
    case False
    have "key y \<le> key (max_by key b ys)"
      using max_by_ge_start [of key b ys] False by linarith
    then show ?thesis using Cons.prems Cons.IH [of b] False by auto
  qed
qed

lemma scan_from_detection:
  "0 < confidence b \<Longrightarrow>
     scan_detections sb ds (scan_of b) = scan_of (max_by confidence b (qualifying sb ds))"
proof (induction ds arbitrary: b)
  case Nil
  then show ?case by (simp add: qualifying_def)
next
  case (Cons d ds)
  show ?case
  proof (cases "calculate_overlap sb (bbox d) > 0.5 \<and> confidence d > confidence b")
    case True
    then have "0 < confidence d" using Cons.prems by linarith
    then show ?thesis using True Cons.IH [of d] Cons.prems
      by (simp add: scan_of_def qualifying_def class_or_vehicle_def)
  next
    case False
    then show ?thesis using Cons.IH [of b] Cons.prems
      by (auto simp: scan_of_def qualifying_def class_or_vehicle_def)
  qed
qed

lemma scan_representative:
  "scan_detections sb ds (False, 0, None, None) =
     (case representative sb ds of None \<Rightarrow> (False, 0, None, None) | Some d \<Rightarrow> scan_of d)"
proof (induction ds)
  case Nil
  then show ?case by (simp add: representative_def qualifying_def)
next
  case (Cons d ds)
  show ?case
  proof (cases "calculate_overlap sb (bbox d) > 0.5 \<and> confidence d > 0")
    case True
    then have "scan_detections sb (d # ds) (False, 0, None, None)
                 = scan_detections sb ds (scan_of d)"
      by (simp add: scan_of_def class_or_vehicle_def)
    also have "\<dots> = scan_of (max_by confidence d (qualifying sb ds))"
      using True by (simp add: scan_from_detection)
    finally show ?thesis using True by (simp add: representative_def qualifying_def)
  next
    case False
    then show ?thesis using Cons.IH by (auto simp: representative_def qualifying_def)
  qed
qed

lemma analyze_slot_occupancy_cases:
  "analyze_slot_occupancy frm slt ds =
     (case representative (coordinates slt) ds of
        None \<Rightarrow>
          \<lparr>slot_id = s_id slt, slot_number = s_slot_number slt,
           is_occupied = (analyze_slot_image (slot_crop frm slt) > 0.6),
           v_confidence = analyze_slot_image (slot_crop frm slt),
           vehicle_type = None, detection_box = None\<rparr>
      | Some d \<Rightarrow>
          \<lparr>slot_id = s_id slt, slot_number = s_slot_number slt,
           is_occupied = True, v_confidence = confidence d,
           vehicle_type = Some (class_or_vehicle d), detection_box = Some (bbox d)\<rparr>)"
proof -
  obtain x y w h where c: "coordinates slt = (x, y, w, h)" by (cases "coordinates slt")
  show ?thesis
    unfolding analyze_slot_occupancy_def slot_crop_def c
    using scan_representative [of "(x, y, w, h)" ds]
    by (simp add: scan_of_def Let_def split: option.splits)
qed

lemma primary_occupied_iff:
  "primary_occupied slt ds = (representative (coordinates slt) ds \<noteq> None)"
  by (simp add: primary_occupied_def scan_representative scan_of_def split: option.splits)

lemma representative_None_iff:
  "(representative sb ds = None) =
     (\<not> (\<exists>d \<in> set ds. calculate_overlap sb (bbox d) > 0.5 \<and> confidence d > 0))"
proof -
  have "(representative sb ds = None) = (qualifying sb ds = [])"
    by (simp add: representative_def split: list.splits)
  also have "\<dots> = (\<not> (\<exists>d \<in> set ds. calculate_overlap sb (bbox d) > 0.5 \<and> confidence d > 0))"
    unfolding qualifying_def filter_empty_conv by blast
  finally show ?thesis .
qed

lemma representative_Some:
  assumes "representative sb ds = Some d"
  shows "d \<in> set ds" "calculate_overlap sb (bbox d) > 0.5" "0 < confidence d"
    "\<forall>e \<in> set ds. calculate_overlap sb (bbox e) > 0.5 \<longrightarrow> confidence e \<le> confidence d"
proof -
  from assms obtain q qs where q: "qualifying sb ds = q # qs" and d: "d = max_by confidence q qs"
    by (auto simp: representative_def split: list.splits)
  have "d \<in> set (qualifying sb ds)" using max_by_mem [of confidence q qs] q d by simp
  then show m: "d \<in> set ds" and "calculate_overlap sb (bbox d) > 0.5" and p: "0 < confidence d"
    by (simp_all add: qualifying_def)
  show "\<forall>e \<in> set ds. calculate_overlap sb (bbox e) > 0.5 \<longrightarrow> confidence e \<le> confidence d"
  proof (intro ballI impI)
    fix e assume e: "e \<in> set ds" "calculate_overlap sb (bbox e) > 0.5"
    show "confidence e \<le> confidence d"
    proof (cases "0 < confidence e")
      case True
      then have "e \<in> set (q # qs)" using e q [symmetric] by (simp add: qualifying_def)
      then show ?thesis using max_by_ge [of e q qs confidence] d by simp
    next
      case False
      then show ?thesis using p by linarith
    qed
  qed
qed

lemma detector_overlap_eq_iou: "detector_calculate_overlap a b = calculate_iou a b"
  by (simp add: detector_calculate_overlap_def calculate_iou_def)

lemma region_vehicles_mem:
  "v \<in> set (region_vehicles rgn ds) \<Longrightarrow>
     rv_detection v \<in> set ds \<and> rv_overlap v > 0.3
     \<and> rv_overlap v = detector_calculate_overlap (coordinates rgn) (bbox (rv_detection v))"
  by (induction ds) (auto simp: Let_def split: if_splits)

lemma region_vehicles_complete:
  "d \<in> set ds \<Longrightarrow> detector_calculate_overlap (coordinates rgn) (bbox d) > 0.3 \<Longrightarrow>
     \<exists>v \<in> set (region_vehicles rgn ds).
        rv_overlap v = detector_calculate_overlap (coordinates rgn) (bbox d)"
  by (induction ds) (auto simp: Let_def)

lemma region_result_occupied:
  "rd_is_occupied (region_result rgn ds) =
     (\<exists>d \<in> set ds. detector_calculate_overlap (coordinates rgn) (bbox d) > 0.3)"
proof -
  have "rd_is_occupied (region_result rgn ds) = (region_vehicles rgn ds \<noteq> [])"
    by (simp add: region_result_def split: list.splits)
  also have "\<dots> = (\<exists>d \<in> set ds. detector_calculate_overlap (coordinates rgn) (bbox d) > 0.3)"
  proof
    assume "region_vehicles rgn ds \<noteq> []"
    then obtain v where "v \<in> set (region_vehicles rgn ds)" by (cases "region_vehicles rgn ds") auto
    then show "\<exists>d \<in> set ds. detector_calculate_overlap (coordinates rgn) (bbox d) > 0.3"
      using region_vehicles_mem [of v rgn ds] by auto
  next
    assume "\<exists>d \<in> set ds. detector_calculate_overlap (coordinates rgn) (bbox d) > 0.3"
    then show "region_vehicles rgn ds \<noteq> []"
      using region_vehicles_complete [of _ ds rgn] by fastforce
  qed
  finally show ?thesis .
qed

lemma region_result_best:
  assumes "rd_is_occupied (region_result rgn ds)"
  shows "\<exists>v. rd_detection (region_result rgn ds) = Some v \<and> rv_detection v \<in> set ds
           \<and> rv_overlap v = detector_calculate_overlap (coordinates rgn) (bbox (rv_detection v))
           \<and> rv_overlap v > 0.3
           \<and> (\<forall>e \<in> set ds. detector_calculate_overlap (coordinates rgn) (bbox e) \<le> rv_overlap v)"
proof -
  from assms obtain q qs where q: "region_vehicles rgn ds = q # qs"
    by (cases "region_vehicles rgn ds") (auto simp: region_result_def)
  define v where "v = max_by rv_overlap q qs"
  have r: "rd_detection (region_result rgn ds) = Some v"
    by (simp add: region_result_def q v_def)
  have vin: "v \<in> set (region_vehicles rgn ds)"
    using max_by_mem [of rv_overlap q qs] by (simp add: q v_def)
  note vm = region_vehicles_mem [OF vin]
  have "detector_calculate_overlap (coordinates rgn) (bbox e) \<le> rv_overlap v"
    if e: "e \<in> set ds" for e
  proof (cases "detector_calculate_overlap (coordinates rgn) (bbox e) > 0.3")
    case True
    then obtain u where u: "u \<in> set (region_vehicles rgn ds)"
      "rv_overlap u = detector_calculate_overlap (coordinates rgn) (bbox e)"
      using region_vehicles_complete [OF e] by blast
    then have "rv_overlap u \<le> rv_overlap v"
      using max_by_ge [of u q qs rv_overlap] by (simp add: q v_def)
    then show ?thesis using u by simp
  next
    case False
    then show ?thesis using vm by linarith
  qed
  then show ?thesis using r vm by blast
qed

text \<open>
  Claim C2, as amended. The slot is marked occupied on the primary path exactly when some
  detection overlaps the slot rectangle by more than 0.5 and has a positive confidence;
  the representative detection, whose confidence, class and box the verdict records, is
  the first detection of highest confidence among those (not the one of highest overlap).
  The region-association variant marks the region occupied exactly when some detection
  overlaps it by more than 0.3 and keeps a detection of maximal overlap.
\<close>

theorem classifier_keeps_highest_confidence:
  "analyze_slot_occupancy frm slt ds =
     (case representative (coordinates slt) ds of
        None \<Rightarrow>
          \<lparr>slot_id = s_id slt, slot_number = s_slot_number slt,
           is_occupied = (analyze_slot_image (slot_crop frm slt) > 0.6),
           v_confidence = analyze_slot_image (slot_crop frm slt),
           vehicle_type = None, detection_box = None\<rparr>
      | Some d \<Rightarrow>
          \<lparr>slot_id = s_id slt, slot_number = s_slot_number slt,
           is_occupied = True, v_confidence = confidence d,
           vehicle_type = Some (class_or_vehicle d), detection_box = Some (bbox d)\<rparr>)
   \<and> (primary_occupied slt ds =
        (\<exists>d \<in> set ds. calculate_overlap (coordinates slt) (bbox d) > 0.5 \<and> confidence d > 0))
   \<and> (primary_occupied slt ds \<longrightarrow>
        (\<exists>d \<in> set ds. calculate_overlap (coordinates slt) (bbox d) > 0.5
           \<and> representative (coordinates slt) ds = Some d
           \<and> (\<forall>e \<in> set ds. calculate_overlap (coordinates slt) (bbox e) > 0.5 \<longrightarrow>
                 confidence e \<le> confidence d)))
   \<and> (rd_is_occupied (region_result slt ds) =
        (\<exists>d \<in> set ds. detector_calculate_overlap (coordinates slt) (bbox d) > 0.3))
   \<and> (rd_is_occupied (region_result slt ds) \<longrightarrow>
        (\<exists>v. rd_detection (region_result slt ds) = Some v \<and> rv_detection v \<in> set ds
           \<and> rv_overlap v = detector_calculate_overlap (coordinates slt) (bbox (rv_detection v))
           \<and> rv_overlap v > 0.3
           \<and> (\<forall>e \<in> set ds.
                 detector_calculate_overlap (coordinates slt) (bbox e) \<le> rv_overlap v)))"
proof -
  have a: "primary_occupied slt ds =
        (\<exists>d \<in> set ds. calculate_overlap (coordinates slt) (bbox d) > 0.5 \<and> confidence d > 0)"
    using representative_None_iff [of "coordinates slt" ds]
    by (simp add: primary_occupied_iff)
  have b: "\<exists>d \<in> set ds. calculate_overlap (coordinates slt) (bbox d) > 0.5
           \<and> representative (coordinates slt) ds = Some d
           \<and> (\<forall>e \<in> set ds. calculate_overlap (coordinates slt) (bbox e) > 0.5 \<longrightarrow>
                 confidence e \<le> confidence d)"
    if "primary_occupied slt ds"
  proof -
    from that obtain d where d: "representative (coordinates slt) ds = Some d"
      by (auto simp: primary_occupied_iff)
    show ?thesis using representative_Some [OF d] d by blast
  qed
  show ?thesis
    using analyze_slot_occupancy_cases [of frm slt ds] a b
      region_result_occupied [of slt ds] region_result_best [of slt ds]
    by blast
qed

text \<open>
  Claim C2 as stated fails: with two detections overlapping the slot by 1 and by 4/5, the
  verdict records the second one, of lower overlap and higher confidence.
\<close>

theorem classifier_highest_overlap_counterexample:
  "calculate_overlap (0, 0, 10, 10) (bbox (car_at (0, 0, 10, 10) 0.6)) = 1
   \<and> calculate_overlap (0, 0, 10, 10) (bbox (car_at (0, 0, 10, 8) 0.9)) = 4 / 5
   \<and> analyze_slot_occupancy blank_frame (slot_at (0, 0, 10, 10))
        [car_at (0, 0, 10, 10) 0.6, car_at (0, 0, 10, 8) 0.9]
      = \<lparr>slot_id = 1, slot_number = 1, is_occupied = True, v_confidence = 0.9,
         vehicle_type = Some ''car'', detection_box = Some (0, 0, 10, 8)\<rparr>"
  by (simp add: analyze_slot_occupancy_def calculate_overlap_def car_at_def slot_at_def
      blank_frame_def)

text \<open>
  Claim C10. When no detection qualified on the primary path, the verdict comes from the
  pixel heuristic: its vehicle type and detection box are \<open>None\<close>, its confidence is the
  heuristic score and it is occupied exactly when the score exceeds 0.6, so an occupied
  verdict need not carry a vehicle type or a box.
\<close>

theorem fallback_verdict_without_vehicle:
  "\<not> primary_occupied slt ds \<Longrightarrow>
     vehicle_type (analyze_slot_occupancy frm slt ds) = None
     \<and> detection_box (analyze_slot_occupancy frm slt ds) = None
     \<and> v_confidence (analyze_slot_occupancy frm slt ds) = analyze_slot_image (slot_crop frm slt)
     \<and> is_occupied (analyze_slot_occupancy frm slt ds)
         = (analyze_slot_image (slot_crop frm slt) > 0.6)"
  by (simp add: analyze_slot_occupancy_cases primary_occupied_iff)

theorem classifier_keeps_highest_confidence_witness:
  "primary_occupied (slot_at (0, 0, 10, 10))
     [car_at (0, 0, 10, 10) 0.6, car_at (0, 0, 10, 8) 0.9]
   \<and> rd_is_occupied (region_result (slot_at (0, 0, 10, 10))
        [car_at (0, 0, 10, 10) 0.6, car_at (0, 0, 10, 8) 0.9])
   \<and> (\<exists>d. representative (coordinates (slot_at (0, 0, 10, 10)))
             [car_at (0, 0, 10, 10) 0.6, car_at (0, 0, 10, 8) 0.9] = Some d)
   \<and> (\<exists>v. rd_detection (region_result (slot_at (0, 0, 10, 10))
             [car_at (0, 0, 10, 10) 0.6, car_at (0, 0, 10, 8) 0.9]) = Some v
           \<and> rv_overlap v > 0.3)"
proof -
  let ?s = "slot_at (0, 0, 10, 10)"
  let ?ds = "[car_at (0, 0, 10, 10) 0.6, car_at (0, 0, 10, 8) 0.9]"
  have p: "primary_occupied ?s ?ds"
    by (simp add: primary_occupied_def calculate_overlap_def car_at_def slot_at_def)
  have r: "rd_is_occupied (region_result ?s ?ds)"
    by (simp add: region_result_def detector_calculate_overlap_def car_at_def slot_at_def)
  show ?thesis
    using classifier_keeps_highest_confidence [of blank_frame ?s ?ds] p r by blast
qed

theorem fallback_verdict_without_vehicle_witness:
  "\<not> primary_occupied (slot_at (0, 0, 10, 10)) [car_at (50, 50, 10, 10) 0.9]
   \<and> is_occupied (analyze_slot_occupancy busy_frame (slot_at (0, 0, 10, 10))
        [car_at (50, 50, 10, 10) 0.9])
   \<and> vehicle_type (analyze_slot_occupancy busy_frame (slot_at (0, 0, 10, 10))
        [car_at (50, 50, 10, 10) 0.9]) = None
   \<and> detection_box (analyze_slot_occupancy busy_frame (slot_at (0, 0, 10, 10))
        [car_at (50, 50, 10, 10) 0.9]) = None"
proof -
  let ?s = "slot_at (0, 0, 10, 10)"
  let ?ds = "[car_at (50, 50, 10, 10) 0.9]"
  have p: "\<not> primary_occupied ?s ?ds"
    by (simp add: primary_occupied_def calculate_overlap_def car_at_def slot_at_def)
  have sc: "analyze_slot_image (slot_crop busy_frame ?s) = 1"
    by (simp add: analyze_slot_image_def slot_crop_def busy_frame_def slot_at_def)
  show ?thesis
    using fallback_verdict_without_vehicle [OF p, of busy_frame] p by (simp add: sc)
qed

section \<open>Properties of the synthetic detections\<close>

lemma randint_range:
  "np_randint low high g = Inr (v, g') \<Longrightarrow> low \<le> v \<and> v < high"
proof -
  assume a: "np_randint low high g = Inr (v, g')"
  then have lt: "low < high" by (auto simp: np_randint_def split: if_splits)
  from a lt have v: "v = low + int_draws g (int_pos g) mod (high - low)"
    by (simp add: np_randint_def)
  have "0 \<le> int_draws g (int_pos g) mod (high - low)"
    "int_draws g (int_pos g) mod (high - low) < high - low"
    using lt by simp_all
  then show ?thesis using v by linarith
qed

lemma randint_ok: "low < high \<Longrightarrow> \<exists>v g'. np_randint low high g = Inr (v, g')"
  by (simp add: np_randint_def)

lemma uniform_range:
  assumes "np_uniform low high g = (c, g')" "low \<le> high"
  shows "low \<le> c \<and> c \<le> high"
proof -
  let ?u = "frac (real_draws g (real_pos g))"
  have u: "0 \<le> ?u" "?u < 1" by (simp_all add: frac_lt_1)
  have c: "c = low + (high - low) * ?u" using assms(1) by (simp add: np_uniform_def)
  have "0 \<le> (high - low) * ?u" using assms(2) u by simp
  moreover have "(high - low) * ?u \<le> (high - low) * 1"
    using assms(2) u by (intro mult_left_mono) auto
  ultimately show ?thesis using c by simp
qed

lemma mock_loop_large:
  assumes "149 \<le> width" "79 \<le> height" "shape frm = (nat height, nat width)"
    "\<forall>d \<in> set acc. mock_ok frm d"
  shows "\<exists>ds g'. mock_loop n height width g acc = Inr (ds, g')
           \<and> length ds = length acc + n \<and> (\<forall>d \<in> set ds. mock_ok frm d)"
  using assms(4)
proof (induction n arbitrary: g acc)
  case 0
  then show ?case by simp
next
  case (Suc n)
  obtain x g1 where x: "np_randint 0 (width - 100) g = Inr (x, g1)"
    using randint_ok [of 0 "width - 100" g] assms(1) by auto
  obtain y g2 where y: "np_randint 0 (height - 60) g1 = Inr (y, g2)"
    using randint_ok [of 0 "height - 60" g1] assms(2) by auto
  obtain w g3 where w: "np_randint 80 150 g2 = Inr (w, g3)"
    using randint_ok [of 80 150 g2] by auto
  obtain h g4 where h: "np_randint 40 80 g3 = Inr (h, g4)"
    using randint_ok [of 40 80 g3] by auto
  obtain c g5 where c: "np_uniform 0.6 0.95 g4 = (c, g5)"
    by (cases "np_uniform 0.6 0.95 g4")
  note rx = randint_range [OF x] and ry = randint_range [OF y]
    and rw = randint_range [OF w] and rh = randint_range [OF h]
  have rc: "0.6 \<le> c \<and> c \<le> 0.95" using uniform_range [OF c] by simp
  let ?d = "\<lparr>bbox = (real_of_int (min x (width - w)), real_of_int (min y (height - h)),
                     real_of_int w, real_of_int h),
             confidence = c, class_id = 2, class_name = Some ''car''\<rparr>"
  have xi: "0 \<le> min x (width - w) \<and> min x (width - w) + w \<le> width"
    using rx rw assms(1) by auto
  have yi: "0 \<le> min y (height - h) \<and> min y (height - h) + h \<le> height"
    using ry rh assms(2) by auto
  have wf: "within_frame frm (bbox ?d)"
  proof -
    have wn: "real (nat width) = real_of_int width" "real (nat height) = real_of_int height"
      using assms(1,2) by simp_all
    have "real_of_int (min x (width - w) + w) \<le> real_of_int width"
      using xi by (simp only: of_int_le_iff)
    then have "real_of_int (min x (width - w)) + real_of_int w \<le> real (nat width)"
      by (simp add: wn)
    moreover have "real_of_int (min y (height - h) + h) \<le> real_of_int height"
      using yi by (simp only: of_int_le_iff)
    then have "real_of_int (min y (height - h)) + real_of_int h \<le> real (nat height)"
      by (simp add: wn)
    ultimately show ?thesis
      using xi yi rw rh by (simp add: within_frame_def assms(3))
  qed
  have ok: "mock_ok frm ?d" using rc wf by (simp add: mock_ok_def)
  have "\<forall>d \<in> set (acc @ [?d]). mock_ok frm d" using Suc.prems ok by auto
  from Suc.IH [OF this, of g5]
  show ?case using c by (simp add: x y w h)
qed

lemma mock_large_frames:
  assumes "shape frm = (height, width)" "149 \<le> width" "79 \<le> height"
  shows "\<exists>ds g'. mock_detect_vehicles frm g = Inr (ds, g')
           \<and> length ds \<le> 4 \<and> (\<forall>d \<in> set ds. mock_ok frm d)"
proof -
  obtain num g1 where n: "np_randint 0 5 g = Inr (num, g1)"
    using randint_ok [of 0 5 g] by auto
  note rn = randint_range [OF n]
  have "\<exists>ds g'. mock_loop (nat num) (int height) (int width) g1 [] = Inr (ds, g')
           \<and> length ds = length ([] :: detection list) + nat num
           \<and> (\<forall>d \<in> set ds. mock_ok frm d)"
    using assms by (intro mock_loop_large) auto
  then show ?thesis using rn by (auto simp: mock_detect_vehicles_def assms(1) n)
qed

text \<open>
  Claim C9 fails on small frames. On a frame of width 100, \<open>randint(0, width - 100)\<close>
  raises as soon as one detection is drawn; on a frame of width 120 a drawn box width of
  149 moves the box to \<open>x = -29\<close>, outside the frame. (On frames of at least 149 by 79
  pixels the claim holds, see \<open>mock_large_frames\<close>.)
\<close>

theorem mock_small_frames_fail:
  "mock_detect_vehicles (frame_of_shape 480 100) (rng_of (\<lambda>n. 1) (\<lambda>n. 0))
     = Inl (ValueError ''low >= high'')
   \<and> map_sum id fst
       (mock_detect_vehicles (frame_of_shape 100 120)
          (rng_of (\<lambda>n. if n = 0 then 1 else if n = 3 then 69 else 0) (\<lambda>n. 0)))
     = Inr [\<lparr>bbox = (- 29, 0, 149, 40), confidence = 0.6, class_id = 2,
            class_name = Some ''car''\<rparr>]
   \<and> \<not> within_frame (frame_of_shape 100 120) (- 29, 0, 149, 40)"
  by (simp add: mock_detect_vehicles_def frame_of_shape_def rng_of_def np_randint_def
      np_uniform_def within_frame_def)

section \<open>Properties of the run invocation\<close>

lemma validate_log:
  "validate_video_file w iolog p = (valid, iolog1) \<Longrightarrow>
     frame_reads iolog \<le> frame_reads iolog1 \<and> frame_reads iolog1 \<le> frame_reads iolog + 1
     \<and> video_opens iolog \<le> video_opens iolog1 \<and> video_opens iolog1 \<le> video_opens iolog + 1"
  by (auto simp: validate_video_file_def cap_read_def open_capture_def
           split: if_splits option.splits prod.splits)

text \<open>
  Claim C3, as amended. With an empty slot list \<open>process_video\<close> always raises and never
  opens the analysis capture; the video file is validated first, which opens it once and
  reads one frame when it is valid, and then the error is the missing slot configuration;
  an invalid video file is reported instead of the slot configuration.
\<close>

theorem empty_slot_config_rejected:
  "process_video w iolog detect dt processed video_path [] atype =
     (snd (validate_video_file w iolog video_path),
      Inl (if fst (validate_video_file w iolog video_path)
           then ValueError ''Slot configuration is required''
           else ValueError (''Invalid video file: '' @ video_path)))
   \<and> frame_reads (fst (process_video w iolog detect dt processed video_path [] atype))
       \<le> frame_reads iolog + 1
   \<and> video_opens (fst (process_video w iolog detect dt processed video_path [] atype))
       \<le> video_opens iolog + 1
   \<and> (fst (validate_video_file w iolog video_path) =
        (path_exists w video_path \<and> path_suffix w video_path \<in> set valid_extensions
         \<and> (\<exists>f fs. video_stream w video_path = Some (f # fs))))
   \<and> (fst (validate_video_file w iolog video_path) \<longrightarrow>
        frame_reads (fst (process_video w iolog detect dt processed video_path [] atype))
          = frame_reads iolog + 1)"
proof -
  obtain valid iolog1 where v: "validate_video_file w iolog video_path = (valid, iolog1)"
    by (cases "validate_video_file w iolog video_path")
  have eq: "process_video w iolog detect dt processed video_path [] atype =
     (iolog1, Inl (if valid then ValueError ''Slot configuration is required''
                 else ValueError (''Invalid video file: '' @ video_path)))"
    by (simp add: process_video_def v)
  have iff: "valid = (path_exists w video_path \<and> path_suffix w video_path \<in> set valid_extensions
         \<and> (\<exists>f fs. video_stream w video_path = Some (f # fs)))"
    using v
    by (auto simp: validate_video_file_def cap_read_def open_capture_def neq_Nil_conv
             split: if_splits option.splits prod.splits)
  have rd: "valid \<longrightarrow> frame_reads iolog1 = frame_reads iolog + 1"
    using v
    by (auto simp: validate_video_file_def cap_read_def open_capture_def
             split: if_splits option.splits prod.splits)
  show ?thesis using validate_log [OF v] iff rd by (simp add: eq v)
qed

text \<open>
  Claim C3 as stated fails: on a readable video and an empty slot list the configuration
  error is raised after one frame has been read.
\<close>

theorem empty_slot_config_reads_counterexample:
  "process_video lot_world \<lparr>video_opens = 0, frame_reads = 0\<rparr> no_detections () 0
      ''lot.mp4'' [] ''occupancy''
     = (\<lparr>video_opens = 1, frame_reads = 1\<rparr>,
        Inl (ValueError ''Slot configuration is required''))"
  by (simp add: process_video_def validate_video_file_def lot_world_def valid_extensions_def
      cap_read_def open_capture_def)

theorem empty_slot_config_rejected_witness:
  "fst (validate_video_file lot_world \<lparr>video_opens = 0, frame_reads = 0\<rparr> ''lot.mp4'')
   \<and> frame_reads (fst (process_video lot_world \<lparr>video_opens = 0, frame_reads = 0\<rparr>
         no_detections () 0 ''lot.mp4'' [] ''full'')) = 1"
proof -
  have v: "fst (validate_video_file lot_world \<lparr>video_opens = 0, frame_reads = 0\<rparr> ''lot.mp4'')"
    by (simp add: validate_video_file_def lot_world_def valid_extensions_def
        cap_read_def open_capture_def)
  have "frame_reads (fst (process_video lot_world \<lparr>video_opens = 0, frame_reads = 0\<rparr>
         no_detections () 0 ''lot.mp4'' [] ''full''))
          = frame_reads \<lparr>video_opens = 0, frame_reads = 0\<rparr> + 1"
    using empty_slot_config_rejected [of lot_world "\<lparr>video_opens = 0, frame_reads = 0\<rparr>"
        no_detections "()" 0 "''lot.mp4''" "''full''"] v
    by blast
  then show ?thesis using v by simp
qed

section \<open>Properties of the sampling\<close>

lemma sampled_from_Nil: "sampled_from n fc [] = []"
  by (simp add: sampled_from_def)

lemma sampled_from_Cons:
  "sampled_from n fc (f # fs) =
     (if fc mod n = 0 then (fc, f) # sampled_from n (Suc fc) fs else sampled_from n (Suc fc) fs)"
proof -
  have "fc < fc + length (f # fs)" by simp
  then have "[fc..<fc + length (f # fs)] = fc # [Suc fc..<fc + length (f # fs)]"
    by (rule upt_conv_Cons)
  moreover have "fc + length (f # fs) = Suc fc + length fs" by simp
  ultimately have e: "[fc..<fc + length (f # fs)] = fc # [Suc fc..<Suc fc + length fs]"
    by (simp only:)
  show ?thesis unfolding sampled_from_def e by simp
qed

lemma every_nth_sampled: "every_nth n frames = sampled_from n 0 frames"
  by (simp add: every_nth_def sampled_from_def)

lemma cap_read_end:
  "\<not> cap_pos c < length (cap_frames c) \<Longrightarrow> fst (cap_read c) = None"
  by (simp add: cap_read_def)

lemma occupancy_loop_sampled:
  "snd (occupancy_loop detect slots n cap dt sd p fc) =
     occupancy_on_frames detect slots
       (map snd (sampled_from n fc (drop (cap_pos cap) (cap_frames cap)))) dt sd p"
proof (induction "length (cap_frames cap) - cap_pos cap" arbitrary: cap dt sd p fc)
  case 0
  then have e: "drop (cap_pos cap) (cap_frames cap) = []" by simp
  from 0 have r: "cap_read cap = (None, cap\<lparr>cap_reads := cap_reads cap + 1\<rparr>)"
    by (simp add: cap_read_def)
  show ?case
    by (subst occupancy_loop.simps) (simp add: r e sampled_from_Nil)
next
  case (Suc k)
  then have lt: "cap_pos cap < length (cap_frames cap)" by simp
  define frm where "frm = cap_frames cap ! cap_pos cap"
  define cap' where "cap' = cap\<lparr>cap_pos := cap_pos cap + 1, cap_reads := cap_reads cap + 1\<rparr>"
  have r: "cap_read cap = (Some frm, cap')"
    using lt by (simp add: cap_read_def frm_def cap'_def)
  have d: "drop (cap_pos cap) (cap_frames cap) = frm # drop (cap_pos cap') (cap_frames cap')"
    using lt by (simp add: frm_def cap'_def Cons_nth_drop_Suc)
  have k: "k = length (cap_frames cap') - cap_pos cap'"
    using Suc.hyps(2) by (simp add: cap'_def)
  note IH = Suc.hyps(1) [OF k]
  show ?case
    by (subst occupancy_loop.simps)
       (simp add: r d sampled_from_Cons IH split: sum.splits prod.splits)
qed

lemma duration_loop_sampled:
  "snd (duration_loop detect slots n cap dt tm p fc) =
     duration_on_frames detect slots
       (sampled_from n fc (drop (cap_pos cap) (cap_frames cap))) dt tm p"
proof (induction "length (cap_frames cap) - cap_pos cap" arbitrary: cap dt tm p fc)
  case 0
  then have e: "drop (cap_pos cap) (cap_frames cap) = []" by simp
  from 0 have r: "cap_read cap = (None, cap\<lparr>cap_reads := cap_reads cap + 1\<rparr>)"
    by (simp add: cap_read_def)
  show ?case
    by (subst duration_loop.simps) (simp add: r e sampled_from_Nil)
next
  case (Suc k)
  then have lt: "cap_pos cap < length (cap_frames cap)" by simp
  define frm where "frm = cap_frames cap ! cap_pos cap"
  define cap' where "cap' = cap\<lparr>cap_pos := cap_pos cap + 1, cap_reads := cap_reads cap + 1\<rparr>"
  have r: "cap_read cap = (Some frm, cap')"
    using lt by (simp add: cap_read_def frm_def cap'_def)
  have d: "drop (cap_pos cap) (cap_frames cap) = frm # drop (cap_pos cap') (cap_frames cap')"
    using lt by (simp add: frm_def cap'_def Cons_nth_drop_Suc)
  have k: "k = length (cap_frames cap') - cap_pos cap'"
    using Suc.hyps(2) by (simp add: cap'_def)
  note IH = Suc.hyps(1) [OF k]
  show ?case
    by (subst duration_loop.simps)
       (simp add: r d sampled_from_Cons IH split: sum.splits prod.splits)
qed

lemma occupancy_on_frames_count:
  "occupancy_on_frames detect slots fs dt sd p = Inr (dt', sd', p') \<Longrightarrow> p' = p + length fs"
proof (induction fs arbitrary: dt sd p)
  case Nil
  then show ?case by simp
next
  case (Cons f fs)
  from Cons.prems obtain dets dt1 where d: "detect dt f = Inr (dets, dt1)"
    by (auto split: sum.splits)
  from Cons.prems have
    "occupancy_on_frames detect slots fs dt1 (absorb_frame f dets slots sd) (p + 1)
       = Inr (dt', sd', p')"
    by (simp add: d)
  from Cons.IH [OF this] show ?case by simp
qed

lemma duration_on_frames_count:
  "duration_on_frames detect slots fs dt tm p = Inr (dt', tm', p') \<Longrightarrow> p' = p + length fs"
proof (induction fs arbitrary: dt tm p)
  case Nil
  then show ?case by simp
next
  case (Cons f fs)
  obtain i frm where f: "f = (i, frm)" by (cases f)
  from Cons.prems obtain dets dt1 where d: "detect dt frm = Inr (dets, dt1)"
    unfolding f by (auto split: sum.splits)
  from Cons.prems obtain tm1 where r: "record_frame frm dets i slots tm = Inr tm1"
    unfolding f by (auto simp: d split: sum.splits)
  from Cons.prems have "duration_on_frames detect slots fs dt1 tm1 (p + 1) = Inr (dt', tm', p')"
    unfolding f by (simp add: d r)
  from Cons.IH [OF this] show ?case by simp
qed

lemma occupancy_on_frames_total:
  assumes "\<And>d f. \<exists>r. detect d f = Inr r"
  shows "\<exists>dt' sd'. occupancy_on_frames detect slots fs dt sd p = Inr (dt', sd', p + length fs)"
proof (induction fs arbitrary: dt sd p)
  case Nil
  then show ?case by simp
next
  case (Cons f fs)
  obtain dets dt1 where d: "detect dt f = Inr (dets, dt1)"
    using assms [of dt f] by auto
  show ?case using Cons [of dt1 "absorb_frame f dets slots sd" "p + 1"] by (simp add: d)
qed

lemma map_fst_filter_zip:
  "length xs = length ys \<Longrightarrow>
     map fst (filter (\<lambda>(i, f). P i) (zip xs ys)) = filter P xs"
  by (induction xs ys rule: list_induct2) auto

lemma every_nth_indices:
  "map fst (every_nth n frames) = filter (\<lambda>i. i mod n = 0) [0..<length frames]"
  by (simp add: every_nth_def map_fst_filter_zip)

lemma multiples_300: "filter (\<lambda>i. i mod 30 = 0) [0..<300] = [0, 30, 60, 90, 120, 150, 180, 210, 240, 270 :: nat]"
  by code_simp

section \<open>Properties of the passes\<close>

lemma absorb_Nil: "absorb [] k r = [r]"
  by (simp add: absorb_def)

lemma absorb_Cons:
  "absorb (s # rest) k r =
     (if slot_id s = k then (if v_confidence r > v_confidence s then r # rest else s # rest)
      else s # absorb rest k r)"
  by (auto simp: absorb_def split: option.splits)

lemma absorb_ids:
  "map slot_id (absorb sd (slot_id v) v) =
     (if slot_id v \<in> set (map slot_id sd) then map slot_id sd else map slot_id sd @ [slot_id v])"
  by (induction sd) (auto simp: absorb_Nil absorb_Cons)

lemma absorb_distinct:
  "distinct (map slot_id sd) \<Longrightarrow> distinct (map slot_id (absorb sd (slot_id v) v))"
  by (simp add: absorb_ids)

lemma absorb_find:
  "find (\<lambda>u. slot_id u = k) (absorb sd (slot_id v) v) =
     (if k = slot_id v then
        (case find (\<lambda>u. slot_id u = k) sd of
           None \<Rightarrow> Some v
         | Some e \<Rightarrow> if v_confidence v > v_confidence e then Some v else Some e)
      else find (\<lambda>u. slot_id u = k) sd)"
  by (induction sd) (auto simp: absorb_Nil absorb_Cons)

lemma fold_absorb_distinct:
  "distinct (map slot_id sd) \<Longrightarrow> distinct (map slot_id (foldl absorb_verdict sd obs))"
  by (induction obs arbitrary: sd) (simp_all add: absorb_verdict_def absorb_distinct)

lemma fold_absorb_find_Some:
  "find (\<lambda>u. slot_id u = k) sd = Some e \<Longrightarrow>
     find (\<lambda>u. slot_id u = k) (foldl absorb_verdict sd obs)
       = Some (max_by v_confidence e (filter (\<lambda>w. slot_id w = k) obs))"
proof (induction obs arbitrary: sd e)
  case Nil
  then show ?case by simp
next
  case (Cons v obs)
  show ?case
  proof (cases "slot_id v = k")
    case True
    have "find (\<lambda>u. slot_id u = k) (absorb_verdict sd v)
            = Some (if v_confidence v > v_confidence e then v else e)"
      using Cons.prems True absorb_find [of k sd v] by (simp add: absorb_verdict_def)
    from Cons.IH [OF this] show ?thesis using True by simp
  next
    case False
    have "find (\<lambda>u. slot_id u = k) (absorb_verdict sd v) = Some e"
      using Cons.prems False absorb_find [of k sd v] by (simp add: absorb_verdict_def)
    from Cons.IH [OF this] show ?thesis using False by simp
  qed
qed

lemma fold_absorb_find_None:
  "find (\<lambda>u. slot_id u = k) sd = None \<Longrightarrow>
     find (\<lambda>u. slot_id u = k) (foldl absorb_verdict sd obs) = best_verdict k obs"
proof (induction obs arbitrary: sd)
  case Nil
  then show ?case by (simp add: best_verdict_def)
next
  case (Cons v obs)
  show ?case
  proof (cases "slot_id v = k")
    case True
    have "find (\<lambda>u. slot_id u = k) (absorb_verdict sd v) = Some v"
      using Cons.prems True absorb_find [of k sd v] by (simp add: absorb_verdict_def)
    from fold_absorb_find_Some [OF this] show ?thesis
      using True by (simp add: best_verdict_def)
  next
    case False
    have "find (\<lambda>u. slot_id u = k) (absorb_verdict sd v) = None"
      using Cons.prems False absorb_find [of k sd v] by (simp add: absorb_verdict_def)
    from Cons.IH [OF this] show ?thesis using False by (simp add: best_verdict_def)
  qed
qed

lemma distinct_filter_find:
  "distinct (map f xs) \<Longrightarrow>
     filter (\<lambda>u. f u = k) xs = (case find (\<lambda>u. f u = k) xs of None \<Rightarrow> [] | Some u \<Rightarrow> [u])"
proof (induction xs)
  case Nil
  then show ?case by simp
next
  case (Cons x xs)
  show ?case
  proof (cases "f x = k")
    case True
    have "f x \<notin> f ` set xs" using Cons.prems by simp
    then have "\<And>u. u \<in> set xs \<Longrightarrow> f u \<noteq> f x" by (metis image_eqI)
    then have "\<forall>u \<in> set xs. f u \<noteq> k" using True by simp
    then have "filter (\<lambda>u. f u = k) xs = []" by (simp add: filter_empty_conv)
    then show ?thesis using True by simp
  next
    case False
    then show ?thesis using Cons by simp
  qed
qed

lemma best_verdict_Some:
  assumes "best_verdict k obs = Some v"
  shows "v \<in> set obs" "slot_id v = k"
    "v_confidence v = Max (v_confidence ` {w \<in> set obs. slot_id w = k})"
proof -
  from assms obtain q qs where q: "filter (\<lambda>w. slot_id w = k) obs = q # qs"
    and v: "v = max_by v_confidence q qs"
    by (auto simp: best_verdict_def split: list.splits)
  have s: "{w \<in> set obs. slot_id w = k} = set (q # qs)"
    using q [symmetric] by auto
  have m: "v \<in> set (q # qs)" using max_by_mem [of v_confidence q qs] v by simp
  then show "v \<in> set obs" "slot_id v = k" using s by auto
  have "Max (v_confidence ` set (q # qs)) = v_confidence v"
  proof (rule Max_eqI)
    show "finite (v_confidence ` set (q # qs))" by simp
    show "v_confidence v \<in> v_confidence ` set (q # qs)" using m by blast
    fix y assume "y \<in> v_confidence ` set (q # qs)"
    then obtain o' where "o' \<in> set (q # qs)" "y = v_confidence o'" by blast
    then show "y \<le> v_confidence v"
      using max_by_ge [of o' q qs v_confidence] v by simp
  qed
  then show "v_confidence v = Max (v_confidence ` {w \<in> set obs. slot_id w = k})"
    by (simp only: s)
qed

lemma slot_id_analyze: "slot_id (analyze_slot_occupancy frm slt ds) = s_id slt"
  by (simp add: analyze_slot_occupancy_cases split: option.splits)

lemma absorb_frame_fold:
  "absorb_frame frm ds slots sd =
     foldl absorb_verdict sd (map (\<lambda>slt. analyze_slot_occupancy frm slt ds) slots)"
  by (simp add: absorb_frame_def foldl_map absorb_verdict_def slot_id_analyze)


lemma frame_verdicts_Cons:
  "frame_verdicts slots ((f, ds) # fds) =
     map (\<lambda>slt. analyze_slot_occupancy f slt ds) slots @ frame_verdicts slots fds"
  by (simp add: frame_verdicts_def)

lemma occupancy_on_frames_spec:
  "occupancy_on_frames detect slots fs dt sd p =
     (case detections_on detect fs dt of
        Inl e \<Rightarrow> Inl e
      | Inr (dss, dt') \<Rightarrow>
          Inr (dt', foldl absorb_verdict sd (frame_verdicts slots (zip fs dss)), p + length fs))"
proof (induction fs arbitrary: dt sd p)
  case Nil
  then show ?case by (simp add: frame_verdicts_def)
next
  case (Cons f fs)
  show ?case
  proof (cases "detect dt f")
    case (Inl e)
    then show ?thesis by simp
  next
    case (Inr r)
    obtain ds dt1 where r: "r = (ds, dt1)" by (cases r)
    show ?thesis
      by (simp add: Inr r Cons.IH frame_verdicts_Cons absorb_frame_fold
               split: sum.splits prod.splits)
  qed
qed

lemma detections_on_total:
  assumes "\<And>d f. \<exists>r. detect d f = Inr r"
  shows "\<exists>dss dt'. detections_on detect fs dt = Inr (dss, dt') \<and> length dss = length fs"
proof (induction fs arbitrary: dt)
  case Nil
  then show ?case by simp
next
  case (Cons f fs)
  obtain ds dt1 where d: "detect dt f = Inr (ds, dt1)" using assms [of dt f] by auto
  obtain dss dt2 where "detections_on detect fs dt1 = Inr (dss, dt2)" "length dss = length fs"
    using Cons [of dt1] by blast
  then show ?case by (simp add: d)
qed

lemma record_frame_spec:
  "s_id ` set slots \<subseteq> dom tm \<Longrightarrow>
     record_frame f ds i slots tm =
       Inr (\<lambda>k. map_option
                  (\<lambda>es. es @ map (\<lambda>slt. entry_of i (analyze_slot_occupancy f slt ds))
                                (filter (\<lambda>slt. s_id slt = k) slots))
                  (tm k))"
proof (induction slots arbitrary: tm)
  case Nil
  have "(\<lambda>k. map_option (\<lambda>es. es) (tm k)) = tm"
    by (rule ext) (simp add: option.map_ident)
  then show ?case by simp
next
  case (Cons s rest)
  from Cons.prems obtain es where es: "tm (s_id s) = Some es" by auto
  let ?e = "\<lparr>t_frame = i, t_is_occupied = is_occupied (analyze_slot_occupancy f s ds),
             t_confidence = v_confidence (analyze_slot_occupancy f s ds)\<rparr>"
  let ?tm1 = "tm(s_id s \<mapsto> es @ [?e])"
  have "s_id ` set rest \<subseteq> dom ?tm1" using Cons.prems by auto
  note IH = Cons.IH [OF this]
  have "(\<lambda>k. map_option
                  (\<lambda>es. es @ map (\<lambda>slt. entry_of i (analyze_slot_occupancy f slt ds))
                                (filter (\<lambda>slt. s_id slt = k) rest))
                  (?tm1 k))
        = (\<lambda>k. map_option
                  (\<lambda>es. es @ map (\<lambda>slt. entry_of i (analyze_slot_occupancy f slt ds))
                                (filter (\<lambda>slt. s_id slt = k) (s # rest)))
                  (tm k))"
    by (rule ext) (simp add: es entry_of_def)
  then show ?case by (simp add: es Let_def IH)
qed

lemma duration_on_frames_spec:
  "s_id ` set slots \<subseteq> dom tm \<Longrightarrow>
   duration_on_frames detect slots ifs dt tm p =
     (case detections_on detect (map snd ifs) dt of
        Inl e \<Rightarrow> Inl e
      | Inr (dss, dt') \<Rightarrow>
          Inr (dt',
               (\<lambda>k. map_option (\<lambda>es. es @ slot_entries slots (zip ifs dss) k) (tm k)),
               p + length ifs))"
proof (induction ifs arbitrary: dt tm p)
  case Nil
  have "(\<lambda>k. map_option (\<lambda>es. es) (tm k)) = tm"
    by (rule ext) (simp add: option.map_ident)
  then show ?case by (simp add: slot_entries_def)
next
  case (Cons x ifs)
  obtain i f where x: "x = (i, f)" by (cases x)
  show ?case
  proof (cases "detect dt f")
    case (Inl e)
    then show ?thesis by (simp add: x)
  next
    case (Inr r)
    obtain ds dt1 where r: "r = (ds, dt1)" by (cases r)
    let ?tm1 = "\<lambda>k. map_option
                  (\<lambda>es. es @ map (\<lambda>slt. entry_of i (analyze_slot_occupancy f slt ds))
                                (filter (\<lambda>slt. s_id slt = k) slots))
                  (tm k)"
    have rf: "record_frame f ds i slots tm = Inr ?tm1"
      using Cons.prems by (rule record_frame_spec)
    have "dom ?tm1 = dom tm" by (auto simp: dom_def)
    then have "s_id ` set slots \<subseteq> dom ?tm1" using Cons.prems by simp
    note IH = Cons.IH [OF this, of dt1 "Suc p"]
    show ?thesis
    proof (cases "detections_on detect (map snd ifs) dt1")
      case (Inl e)
      then show ?thesis by (simp add: x Inr r rf IH)
    next
      case b: (Inr q)
      obtain dss dt2 where q: "q = (dss, dt2)" by (cases q)
      have "(\<lambda>k. map_option (\<lambda>es. es @ slot_entries slots (zip ifs dss) k) (?tm1 k))
            = (\<lambda>k. map_option
                     (\<lambda>es. es @ slot_entries slots (zip ((i, f) # ifs) (ds # dss)) k) (tm k))"
        by (rule ext) (simp add: slot_entries_def frame_entries_def option.map_comp comp_def)
      then show ?thesis by (simp add: x Inr r rf IH b q)
    qed
  qed
qed

lemma initial_timelines_lookup:
  "initial_timelines slots k = (if k \<in> s_id ` set slots then Some [] else None)"
  by (induction slots) (auto simp: initial_timelines_def)

lemma duration_reports_spec:
  "\<forall>s \<in> set slots. tm (s_id s) = Some (g (s_id s)) \<Longrightarrow>
     duration_reports slots tm =
       Inr (map (\<lambda>s. duration_report s (analyze_slot_duration (g (s_id s)))) slots)"
  by (induction slots) (simp_all add: Let_def duration_report_def)

lemma occupancy_pass_spec:
  assumes S: "S = map snd (sampled_from 30 0 (drop (cap_pos cap) (cap_frames cap)))"
  shows "snd (process_occupancy_analysis detect slots cap dt p) =
     (case detections_on detect S dt of
        Inl e \<Rightarrow> Inl e
      | Inr (dss, dt') \<Rightarrow>
          Inr (occupancy_summary slots
                 (foldl absorb_verdict [] (frame_verdicts slots (zip S dss))),
               dt', p + length S))"
proof -
  obtain c r where l: "occupancy_loop detect slots 30 cap dt [] p 0 = (c, r)"
    by (cases "occupancy_loop detect slots 30 cap dt [] p 0")
  have r: "r = (case detections_on detect S dt of
        Inl e \<Rightarrow> Inl e
      | Inr (dss, dt') \<Rightarrow>
          Inr (dt', foldl absorb_verdict [] (frame_verdicts slots (zip S dss)), p + length S))"
    using occupancy_loop_sampled [of detect slots 30 cap dt "[]" p 0]
    unfolding S by (simp add: l occupancy_on_frames_spec)
  show ?thesis
  proof (cases "detections_on detect S dt")
    case (Inl e)
    then show ?thesis using r by (simp add: process_occupancy_analysis_def l)
  next
    case (Inr q)
    obtain dss dt' where q: "q = (dss, dt')" by (cases q)
    have "r = Inr (dt', foldl absorb_verdict [] (frame_verdicts slots (zip S dss)), p + length S)"
      using r by (simp add: Inr q)
    then show ?thesis
      unfolding process_occupancy_analysis_def l
      by (simp add: Inr q occupancy_summary_def Let_def)
  qed
qed

lemma duration_pass_spec:
  assumes S: "S = sampled_from 15 0 (drop (cap_pos cap) (cap_frames cap))"
  shows "snd (process_duration_analysis detect slots cap dt p) =
     (case detections_on detect (map snd S) dt of
        Inl e \<Rightarrow> Inl e
      | Inr (dss, dt') \<Rightarrow>
          if slots = [] then Inl ZeroDivisionError
          else
            Inr (duration_summary slots
                   (map (\<lambda>s. duration_report s
                                (analyze_slot_duration (slot_entries slots (zip S dss) (s_id s))))
                      slots),
                 dt', p + length S))"
proof -
  obtain c r where l: "duration_loop detect slots 15 cap dt (initial_timelines slots) p 0 = (c, r)"
    by (cases "duration_loop detect slots 15 cap dt (initial_timelines slots) p 0")
  have dm: "s_id ` set slots \<subseteq> dom (initial_timelines slots)"
    by (auto simp: initial_timelines_lookup dom_def)
  have r: "r = (case detections_on detect (map snd S) dt of
        Inl e \<Rightarrow> Inl e
      | Inr (dss, dt') \<Rightarrow>
          Inr (dt',
               (\<lambda>k. map_option (\<lambda>es. es @ slot_entries slots (zip S dss) k)
                       (initial_timelines slots k)),
               p + length S))"
    using duration_loop_sampled [of detect slots 15 cap dt "initial_timelines slots" p 0]
    unfolding S by (simp add: l duration_on_frames_spec [OF dm])
  show ?thesis
  proof (cases "detections_on detect (map snd S) dt")
    case (Inl e)
    then show ?thesis using r by (simp add: process_duration_analysis_def l)
  next
    case (Inr q)
    obtain dss dt' where q: "q = (dss, dt')" by (cases q)
    let ?tm = "\<lambda>k. map_option (\<lambda>es. es @ slot_entries slots (zip S dss) k)
                       (initial_timelines slots k)"
    have rr: "r = Inr (dt', ?tm, p + length S)" using r by (simp add: Inr q)
    have "\<forall>s \<in> set slots. ?tm (s_id s) = Some (slot_entries slots (zip S dss) (s_id s))"
      by (simp add: initial_timelines_lookup)
    then have dr: "duration_reports slots ?tm =
       Inr (map (\<lambda>s. duration_report s
                        (analyze_slot_duration (slot_entries slots (zip S dss) (s_id s))))
              slots)"
      by (rule duration_reports_spec)
    show ?thesis
      unfolding process_duration_analysis_def l
      by (simp add: Inr q rr dr duration_summary_def Let_def)
  qed
qed

lemma detections_on_length:
  "detections_on detect fs dt = Inr (dss, dt') \<Longrightarrow> length dss = length fs"
proof (induction fs arbitrary: dt dss)
  case Nil
  then show ?case by simp
next
  case (Cons f fs)
  from Cons.prems obtain ds dt1 where d: "detect dt f = Inr (ds, dt1)"
    by (auto split: sum.splits)
  from Cons.prems obtain dss1 where r: "detections_on detect fs dt1 = Inr (dss1, dt')"
    and e: "dss = ds # dss1"
    by (auto simp: d split: sum.splits)
  from Cons.IH [OF r] show ?case by (simp add: e)
qed

lemma multiples_15_of_300: "length (filter (\<lambda>i. i mod 15 = 0) [0..<300]) = 20"
  by code_simp

lemma every_nth_length:
  "length (every_nth n frames) = length (filter (\<lambda>i. i mod n = 0) [0..<length frames])"
proof -
  have "length (every_nth n frames) = length (map fst (every_nth n frames))" by simp
  then show ?thesis by (simp only: every_nth_indices)
qed

text \<open>
  Claim C6. Only every n-th frame, numbered from 0, is passed through the detector and
  the classifier, with n = 30 in the occupancy pass and n = 15 in the duration pass: the
  occupancy pass on a video returns the fold of the classifier's verdicts on the sampled
  frames, the duration pass returns the estimates of the timelines made of the
  classifier's verdicts on the sampled frames, the detector is run on the sampled frames
  in order, and the frame counter grows by the number of sampled frames. A video of 300
  frames is sampled at the 10 frames 0, 30, ..., 270 in the occupancy pass (20 frames in
  the duration pass), and with a detector that does not raise both passes return.
\<close>

theorem sampling_every_nth_frame:
  "snd (process_occupancy_analysis detect slots (open_capture frames) dt p) =
     (case detections_on detect (map snd (every_nth 30 frames)) dt of
        Inl e \<Rightarrow> Inl e
      | Inr (dss, dt') \<Rightarrow>
          Inr (occupancy_summary slots
                 (foldl absorb_verdict []
                    (frame_verdicts slots (zip (map snd (every_nth 30 frames)) dss))),
               dt', p + length (every_nth 30 frames)))
   \<and> snd (process_duration_analysis detect slots (open_capture frames) dt p) =
     (case detections_on detect (map snd (every_nth 15 frames)) dt of
        Inl e \<Rightarrow> Inl e
      | Inr (dss, dt') \<Rightarrow>
          if slots = [] then Inl ZeroDivisionError
          else
            Inr (duration_summary slots
                   (map (\<lambda>s. duration_report s
                                (analyze_slot_duration
                                   (slot_entries slots (zip (every_nth 15 frames) dss) (s_id s))))
                      slots),
                 dt', p + length (every_nth 15 frames)))
   \<and> snd (occupancy_loop detect slots n (open_capture frames) dt sd p 0)
     = occupancy_on_frames detect slots (map snd (every_nth n frames)) dt sd p
   \<and> snd (duration_loop detect slots n (open_capture frames) dt tm p 0)
     = duration_on_frames detect slots (every_nth n frames) dt tm p
   \<and> map fst (every_nth n frames) = filter (\<lambda>i. i mod n = 0) [0..<length frames]
   \<and> (length frames = 300 \<longrightarrow>
        map fst (every_nth 30 frames) = [0, 30, 60, 90, 120, 150, 180, 210, 240, 270]
        \<and> length (every_nth 30 frames) = 10 \<and> length (every_nth 15 frames) = 20)
   \<and> (length frames = 300 \<and> (\<forall>d f. \<exists>r. detect d f = Inr r) \<longrightarrow>
        (\<exists>r d'. snd (process_occupancy_analysis detect slots (open_capture frames) dt p)
                   = Inr (r, d', p + 10))
        \<and> (slots \<noteq> [] \<longrightarrow>
             (\<exists>r d'. snd (process_duration_analysis detect slots (open_capture frames) dt p)
                        = Inr (r, d', p + 20))))"
proof -
  have oc: "snd (occupancy_loop detect slots n (open_capture frames) dt sd p 0)
     = occupancy_on_frames detect slots (map snd (every_nth n frames)) dt sd p"
    by (simp add: occupancy_loop_sampled every_nth_sampled open_capture_def)
  have du: "snd (duration_loop detect slots n (open_capture frames) dt tm p 0)
     = duration_on_frames detect slots (every_nth n frames) dt tm p"
    by (simp add: duration_loop_sampled every_nth_sampled open_capture_def)
  have s30: "map snd (every_nth 30 frames)
     = map snd (sampled_from 30 0 (drop (cap_pos (open_capture frames))
                                        (cap_frames (open_capture frames))))"
    by (simp add: every_nth_sampled open_capture_def)
  have s15: "every_nth 15 frames
     = sampled_from 15 0 (drop (cap_pos (open_capture frames))
                               (cap_frames (open_capture frames)))"
    by (simp add: every_nth_sampled open_capture_def)
  have po: "snd (process_occupancy_analysis detect slots (open_capture frames) dt p) =
     (case detections_on detect (map snd (every_nth 30 frames)) dt of
        Inl e \<Rightarrow> Inl e
      | Inr (dss, dt') \<Rightarrow>
          Inr (occupancy_summary slots
                 (foldl absorb_verdict []
                    (frame_verdicts slots (zip (map snd (every_nth 30 frames)) dss))),
               dt', p + length (every_nth 30 frames)))"
    by (rule occupancy_pass_spec [OF s30, of detect slots dt p, unfolded length_map])
  have pd: "snd (process_duration_analysis detect slots (open_capture frames) dt p) =
     (case detections_on detect (map snd (every_nth 15 frames)) dt of
        Inl e \<Rightarrow> Inl e
      | Inr (dss, dt') \<Rightarrow>
          if slots = [] then Inl ZeroDivisionError
          else
            Inr (duration_summary slots
                   (map (\<lambda>s. duration_report s
                                (analyze_slot_duration
                                   (slot_entries slots (zip (every_nth 15 frames) dss) (s_id s))))
                      slots),
                 dt', p + length (every_nth 15 frames)))"
    by (rule duration_pass_spec [OF s15])
  have ix: "map fst (every_nth 30 frames) = [0, 30, 60, 90, 120, 150, 180, 210, 240, 270]"
    if "length frames = 300"
    using that by (simp only: every_nth_indices multiples_300)
  have l30: "length (every_nth 30 frames) = 10" if "length frames = 300"
  proof -
    have "length (map fst (every_nth 30 frames)) = 10" by (simp only: ix [OF that]) simp
    then show ?thesis by simp
  qed
  have l15: "length (every_nth 15 frames) = 20" if "length frames = 300"
    using that by (simp only: every_nth_length multiples_15_of_300)
  have to: "\<exists>r d'. snd (process_occupancy_analysis detect slots (open_capture frames) dt p)
                   = Inr (r, d', p + 10)"
    if len: "length frames = 300" and t: "\<forall>d f. \<exists>r. detect d f = Inr r"
  proof -
    obtain dss dt' where "detections_on detect (map snd (every_nth 30 frames)) dt = Inr (dss, dt')"
      using detections_on_total [of detect "map snd (every_nth 30 frames)" dt] t by blast
    then show ?thesis by (simp add: po l30 [OF len])
  qed
  have td: "\<exists>r d'. snd (process_duration_analysis detect slots (open_capture frames) dt p)
                   = Inr (r, d', p + 20)"
    if len: "length frames = 300" and t: "\<forall>d f. \<exists>r. detect d f = Inr r" and ne: "slots \<noteq> []"
  proof -
    obtain dss dt' where "detections_on detect (map snd (every_nth 15 frames)) dt = Inr (dss, dt')"
      using detections_on_total [of detect "map snd (every_nth 15 frames)" dt] t by blast
    then show ?thesis by (simp add: pd l15 [OF len] ne)
  qed
  show ?thesis
    using po pd oc du every_nth_indices [of n frames] ix l30 l15 to td by blast
qed

theorem sampling_every_nth_frame_witness:
  "length (replicate 300 blank_frame) = 300
   \<and> (\<forall>d f. \<exists>r. no_detections d f = Inr r)
   \<and> [slot_at (0, 0, 10, 10)] \<noteq> []
   \<and> (\<exists>r d'. snd (process_occupancy_analysis no_detections [slot_at (0, 0, 10, 10)]
                     (open_capture (replicate 300 blank_frame)) () 0) = Inr (r, d', 10))
   \<and> (\<exists>r d'. snd (process_duration_analysis no_detections [slot_at (0, 0, 10, 10)]
                     (open_capture (replicate 300 blank_frame)) () 0) = Inr (r, d', 20))
   \<and> map fst (every_nth 30 (replicate 300 blank_frame))
       = [0, 30, 60, 90, 120, 150, 180, 210, 240, 270]"
proof -
  have h1: "length (replicate 300 blank_frame) = 300" by simp
  have h2: "\<forall>d f. \<exists>r. no_detections d f = Inr r" by (simp add: no_detections_def)
  have h3: "[slot_at (0, 0, 10, 10)] \<noteq> []" by simp
  note t = sampling_every_nth_frame [of no_detections "[slot_at (0, 0, 10, 10)]"
        "replicate 300 blank_frame" "()" 0 30 "[]" "initial_timelines []"]
  have a: "\<exists>r d'. snd (process_occupancy_analysis no_detections [slot_at (0, 0, 10, 10)]
                     (open_capture (replicate 300 blank_frame)) () 0) = Inr (r, d', 0 + 10)"
    using t h1 h2 by blast
  have b: "\<exists>r d'. snd (process_duration_analysis no_detections [slot_at (0, 0, 10, 10)]
                     (open_capture (replicate 300 blank_frame)) () 0) = Inr (r, d', 0 + 20)"
    using t h1 h2 h3 by blast
  have c: "map fst (every_nth 30 (replicate 300 blank_frame))
       = [0, 30, 60, 90, 120, 150, 180, 210, 240, 270]"
    using t h1 by blast
  show ?thesis using a b c h1 h2 by simp
qed

lemma every_nth_nonempty: "frames \<noteq> [] \<Longrightarrow> every_nth 30 frames \<noteq> []"
  by (cases frames) (simp_all add: every_nth_sampled sampled_from_Cons)

lemma frame_verdicts_has_slot:
  "fds \<noteq> [] \<Longrightarrow> slt \<in> set slots \<Longrightarrow>
     filter (\<lambda>w. slot_id w = s_id slt) (frame_verdicts slots fds) \<noteq> []"
proof -
  assume ne: "fds \<noteq> []" and m: "slt \<in> set slots"
  then obtain f ds rest where fds: "fds = (f, ds) # rest" by (cases fds) auto
  have "analyze_slot_occupancy f slt ds \<in> set (frame_verdicts slots fds)"
    using m by (simp add: fds frame_verdicts_Cons)
  moreover have "slot_id (analyze_slot_occupancy f slt ds) = s_id slt"
    by (rule slot_id_analyze)
  ultimately show ?thesis by (auto simp: filter_empty_conv)
qed

lemma zip_upt_nth: "zip [0..<length xs] xs = map (\<lambda>i. (i, xs ! i)) [0..<length xs]"
  by (rule nth_equalityI) simp_all

lemma every_nth_nth:
  "every_nth n frames =
     map (\<lambda>i. (i, frames ! i)) (filter (\<lambda>i. i mod n = 0) [0..<length frames])"
  unfolding every_nth_def zip_upt_nth filter_map by (simp add: comp_def)

lemma multiples_31: "filter (\<lambda>i. i mod 30 = 0) [0..<31] = [0, 30 :: nat]"
  by code_simp

lemma no_detections_on:
  "detections_on no_detections fs dt = Inr (replicate (length fs) [], dt)"
  by (induction fs) (simp_all add: no_detections_def)

text \<open>
  Claim C5. When the occupancy pass returns, its retained verdicts are the fold of the
  classifier's verdicts on the sampled frames with the overwrite-if-better rule: at most
  one verdict per slot id is retained, it is the first observed verdict of highest
  confidence for this id, and when the video has a frame, every slot of the
  configuration has exactly one retained verdict, whose confidence is the maximum of the
  confidences observed for the slot across the sampled frames.
\<close>

theorem occupancy_keeps_best_verdict:
  assumes "snd (process_occupancy_analysis detect slots (open_capture frames) dt p)
             = Inr (res, dt', p')"
  shows "\<exists>dss obs.
           detections_on detect (map snd (every_nth 30 frames)) dt = Inr (dss, dt')
           \<and> obs = frame_verdicts slots (zip (map snd (every_nth 30 frames)) dss)
           \<and> slot_detections res = foldl absorb_verdict [] obs
           \<and> distinct (map slot_id (slot_detections res))
           \<and> (\<forall>k. find (\<lambda>v. slot_id v = k) (slot_detections res) = best_verdict k obs)
           \<and> (\<forall>s \<in> set slots. frames \<noteq> [] \<longrightarrow>
                 (\<exists>v. filter (\<lambda>u. slot_id u = s_id s) (slot_detections res) = [v]
                      \<and> v \<in> set obs \<and> slot_id v = s_id s
                      \<and> v_confidence v
                          = Max (v_confidence ` {w \<in> set obs. slot_id w = s_id s})))"
proof -
  let ?S = "map snd (every_nth 30 frames)"
  have s30: "?S = map snd (sampled_from 30 0 (drop (cap_pos (open_capture frames))
                                                  (cap_frames (open_capture frames))))"
    by (simp add: every_nth_sampled open_capture_def)
  note spec = occupancy_pass_spec [OF s30, of detect slots dt p]
  from assms spec obtain dss where d: "detections_on detect ?S dt = Inr (dss, dt')"
    and res: "res = occupancy_summary slots (foldl absorb_verdict [] (frame_verdicts slots (zip ?S dss)))"
    by (auto split: sum.splits prod.splits)
  define obs where "obs = frame_verdicts slots (zip ?S dss)"
  have sd: "slot_detections res = foldl absorb_verdict [] obs"
    by (simp add: res obs_def occupancy_summary_def Let_def)
  have dist: "distinct (map slot_id (slot_detections res))"
    unfolding sd by (rule fold_absorb_distinct) simp
  have fnd: "find (\<lambda>v. slot_id v = k) (slot_detections res) = best_verdict k obs" for k
    unfolding sd by (rule fold_absorb_find_None) simp
  have per: "\<exists>v. filter (\<lambda>u. slot_id u = s_id s) (slot_detections res) = [v]
                      \<and> v \<in> set obs \<and> slot_id v = s_id s
                      \<and> v_confidence v
                          = Max (v_confidence ` {w \<in> set obs. slot_id w = s_id s})"
    if s: "s \<in> set slots" and ne: "frames \<noteq> []" for s
  proof -
    have "length dss = length ?S" using detections_on_length [OF d] .
    moreover have "?S \<noteq> []" using every_nth_nonempty [OF ne] by simp
    ultimately have "zip ?S dss \<noteq> []" by (cases ?S; cases dss) auto
    then have "filter (\<lambda>w. slot_id w = s_id s) obs \<noteq> []"
      unfolding obs_def using s by (rule frame_verdicts_has_slot)
    then obtain q qs where "filter (\<lambda>w. slot_id w = s_id s) obs = q # qs"
      by (cases "filter (\<lambda>w. slot_id w = s_id s) obs") auto
    then have "best_verdict (s_id s) obs = Some (max_by v_confidence q qs)"
      by (simp add: best_verdict_def)
    then obtain v where v: "best_verdict (s_id s) obs = Some v" by blast
    have "filter (\<lambda>u. slot_id u = s_id s) (slot_detections res) = [v]"
      using distinct_filter_find [OF dist, of "s_id s"] by (simp add: fnd v)
    then show ?thesis using best_verdict_Some [OF v] by blast
  qed
  show ?thesis using d obs_def sd dist fnd per by blast
qed

theorem occupancy_keeps_best_verdict_witness:
  "\<exists>res v. snd (process_occupancy_analysis no_detections [slot_at (0, 0, 10, 10)]
                  (open_capture (replicate 30 blank_frame @ [busy_frame])) () 0)
               = Inr (res, (), 2)
           \<and> slot_at (0, 0, 10, 10) \<in> set [slot_at (0, 0, 10, 10)]
           \<and> replicate 30 blank_frame @ [busy_frame] \<noteq> []
           \<and> filter (\<lambda>u. slot_id u = 1) (slot_detections res) = [v]
           \<and> v_confidence v = 1 \<and> is_occupied v"
proof -
  let ?slt = "slot_at (0, 0, 10, 10)"
  let ?frames = "replicate 30 blank_frame @ [busy_frame]"
  have S: "every_nth 30 ?frames = [(0, blank_frame), (30, busy_frame)]"
    by (simp add: every_nth_nth multiples_31 nth_append)
  have s30: "map snd (every_nth 30 ?frames)
     = map snd (sampled_from 30 0 (drop (cap_pos (open_capture ?frames))
                                        (cap_frames (open_capture ?frames))))"
    by (simp add: every_nth_sampled open_capture_def)
  have len: "length (map snd (every_nth 30 ?frames)) = 2" by (simp add: S)
  have dn: "detections_on no_detections (map snd (every_nth 30 ?frames)) ()
              = Inr (replicate 2 [], ())"
    unfolding no_detections_on len ..
  define res where "res = occupancy_summary [?slt]
     (foldl absorb_verdict []
        (frame_verdicts [?slt] (zip (map snd (every_nth 30 ?frames)) (replicate 2 []))))"
  have run: "snd (process_occupancy_analysis no_detections [?slt] (open_capture ?frames) () 0)
               = Inr (res, (), 2)"
    unfolding occupancy_pass_spec [OF s30, of no_detections "[?slt]" "()" 0] dn
    by (simp add: S res_def)
  have h1: "?slt \<in> set [?slt]" by simp
  have h2: "?frames \<noteq> []" by simp
  have sid: "s_id ?slt = 1" by (simp add: slot_at_def)
  from occupancy_keeps_best_verdict [OF run] obtain dss obs where
    d: "detections_on no_detections (map snd (every_nth 30 ?frames)) () = Inr (dss, ())"
    and obs: "obs = frame_verdicts [?slt] (zip (map snd (every_nth 30 ?frames)) dss)"
    and per: "\<forall>s \<in> set [?slt]. ?frames \<noteq> [] \<longrightarrow>
                 (\<exists>v. filter (\<lambda>u. slot_id u = s_id s) (slot_detections res) = [v]
                      \<and> v \<in> set obs \<and> slot_id v = s_id s
                      \<and> v_confidence v
                          = Max (v_confidence ` {w \<in> set obs. slot_id w = s_id s}))"
    by blast
  from per h1 h2 obtain v where
    f: "filter (\<lambda>u. slot_id u = s_id ?slt) (slot_detections res) = [v]"
    and vin: "v \<in> set obs"
    and mx: "v_confidence v = Max (v_confidence ` {w \<in> set obs. slot_id w = s_id ?slt})"
    by blast
  have dss: "dss = [[], []]" using d unfolding dn by (simp add: numeral_2_eq_2)
  have o: "obs = [analyze_slot_occupancy blank_frame ?slt [],
                  analyze_slot_occupancy busy_frame ?slt []]"
    by (simp add: obs dss S frame_verdicts_def)
  have c0: "v_confidence (analyze_slot_occupancy blank_frame ?slt []) = 0"
    by (simp add: analyze_slot_occupancy_def slot_at_def blank_frame_def analyze_slot_image_def)
  have c1: "v_confidence (analyze_slot_occupancy busy_frame ?slt []) = 1"
    "is_occupied (analyze_slot_occupancy busy_frame ?slt [])"
    by (simp_all add: analyze_slot_occupancy_def slot_at_def busy_frame_def
        analyze_slot_image_def)
  have "{w \<in> set obs. slot_id w = s_id ?slt} = set obs"
    by (auto simp: o slot_id_analyze)
  then have "v_confidence v = Max {0, 1}"
    using mx by (simp add: o c0 c1)
  then have v1: "v_confidence v = 1" by simp
  then have "v = analyze_slot_occupancy busy_frame ?slt []"
    using vin c0 by (auto simp: o)
  then have "is_occupied v" using c1 by simp
  then show ?thesis using run h1 h2 f v1 sid by auto
qed

section \<open>Properties of the overlap in floating point\<close>

lemma pow2_powr: "pow2 e = 2 powr (of_int e)"
  by (simp add: pow2_def powr_int)

lemma binade_eq:
  assumes "pow2 k \<le> \<bar>x\<bar>" "\<bar>x\<bar> < pow2 (k + 1)"
  shows "binade x = k"
proof -
  have "0 < pow2 k" by (simp add: pow2_def)
  then have "0 < \<bar>x\<bar>" using assms(1) by linarith
  then show ?thesis
    unfolding binade_def using assms
    by (simp add: floor_log_eq_powr_iff pow2_powr)
qed

lemma fl_eval:
  assumes "pow2 k \<le> \<bar>x\<bar>" "\<bar>x\<bar> < pow2 (k + 1)"
    and "round_half_even (x / pow2 (k - 52)) = m"
  shows "fl x = of_int m * pow2 (k - 52)"
proof -
  have "0 < pow2 k" by (simp add: pow2_def)
  then have "x \<noteq> 0" using assms(1) by auto
  then show ?thesis by (simp add: fl_def binade_eq [OF assms(1,2)] assms(3))
qed

lemma lit_01: "fl (1 / 10) = d01"
  unfolding d01_def
  by (rule fl_eval [where k = "- 4" and m = 7205759403792794, THEN trans])
     (simp_all add: pow2_def round_half_even_def Let_def)

lemma lit_02: "fl (1 / 5) = d02"
  unfolding d02_def
  by (rule fl_eval [where k = "- 3" and m = 7205759403792794, THEN trans])
     (simp_all add: pow2_def round_half_even_def Let_def)

lemma step_right: "fl (d01 + d02) = 5404319552844596 / 2 ^ 54"
  unfolding d01_def d02_def
  by (rule fl_eval [where k = "- 2" and m = 5404319552844596, THEN trans])
     (simp_all add: pow2_def round_half_even_def Let_def)

lemma step_side: "fl (5404319552844596 / 2 ^ 54 - d01) = 7205759403792795 / 2 ^ 55"
  unfolding d01_def
  by (rule fl_eval [where k = "- 3" and m = 7205759403792795, THEN trans])
     (simp_all add: pow2_def round_half_even_def Let_def)

lemma step_inter:
  "fl ((7205759403792795 / 2 ^ 55) * (7205759403792795 / 2 ^ 55)) = 5764607523034237 / 2 ^ 57"
  by (rule fl_eval [where k = "- 5" and m = 5764607523034237, THEN trans])
     (simp_all add: pow2_def round_half_even_def Let_def)

lemma step_area: "fl (d02 * d02) = 5764607523034236 / 2 ^ 57"
  unfolding d02_def
  by (rule fl_eval [where k = "- 5" and m = 5764607523034236, THEN trans])
     (simp_all add: pow2_def round_half_even_def Let_def)

lemma step_sum:
  "fl (5764607523034236 / 2 ^ 57 + 5764607523034236 / 2 ^ 57) = 5764607523034236 / 2 ^ 56"
  by (rule fl_eval [where k = "- 4" and m = 5764607523034236, THEN trans])
     (simp_all add: pow2_def round_half_even_def Let_def)

lemma step_union:
  "fl (5764607523034236 / 2 ^ 56 - 5764607523034237 / 2 ^ 57) = 5764607523034235 / 2 ^ 57"
  by (rule fl_eval [where k = "- 5" and m = 5764607523034235, THEN trans])
     (simp_all add: pow2_def round_half_even_def Let_def)

lemma step_quot:
  "fl ((5764607523034237 / 2 ^ 57) / (5764607523034235 / 2 ^ 57)) = 1 + 1 / 2 ^ 51"
  by (rule fl_eval [where k = 0 and m = 4503599627370498, THEN trans])
     (simp_all add: pow2_def round_half_even_def Let_def)

text \<open>
  Claim C7 fails on the code for float coordinates: for the box \<open>(0.1, 0.1, 0.2, 0.2)\<close>
  against itself the code returns \<open>1.0000000000000004\<close>, that is \<open>1 + 2^-51\<close>, which is
  neither 1 nor at most 1.
\<close>

theorem iou_of_float_box_exceeds_one:
  "calculate_iou_double (fl (1 / 10), fl (1 / 10), fl (1 / 5), fl (1 / 5))
                        (fl (1 / 10), fl (1 / 10), fl (1 / 5), fl (1 / 5))
     = 1 + 1 / 2 ^ 51
   \<and> 1 < calculate_iou_double (fl (1 / 10), fl (1 / 10), fl (1 / 5), fl (1 / 5))
                              (fl (1 / 10), fl (1 / 10), fl (1 / 5), fl (1 / 5))"
proof -
  have lt: "d01 < 5404319552844596 / 2 ^ 54" by (simp add: d01_def)
  have pos: "(0::real) < 5764607523034235 / 2 ^ 57" by simp
  have "calculate_iou_double (d01, d01, d02, d02) (d01, d01, d02, d02) = 1 + 1 / 2 ^ 51"
    unfolding calculate_iou_double_def prod.case Let_def min.idem max.idem
      step_right
    using lt pos
    by (simp only: if_True simp_thms step_side step_inter step_area step_sum step_union
        step_quot)
  then show ?thesis by (simp add: lit_01 lit_02)
qed

section \<open>Properties of the full analysis\<close>

lemma occupancy_loop_frames:
  "cap_frames (fst (occupancy_loop detect slots n cap dt sd p fc)) = cap_frames cap"
proof (induction "length (cap_frames cap) - cap_pos cap" arbitrary: cap dt sd p fc)
  case 0
  then have r: "cap_read cap = (None, cap\<lparr>cap_reads := cap_reads cap + 1\<rparr>)"
    by (simp add: cap_read_def)
  show ?case by (subst occupancy_loop.simps) (simp add: r)
next
  case (Suc k)
  then have lt: "cap_pos cap < length (cap_frames cap)" by simp
  define frm where "frm = cap_frames cap ! cap_pos cap"
  define cap' where "cap' = cap\<lparr>cap_pos := cap_pos cap + 1, cap_reads := cap_reads cap + 1\<rparr>"
  have r: "cap_read cap = (Some frm, cap')"
    using lt by (simp add: cap_read_def frm_def cap'_def)
  have f: "cap_frames cap' = cap_frames cap" by (simp add: cap'_def)
  have k: "k = length (cap_frames cap') - cap_pos cap'"
    using Suc.hyps(2) by (simp add: cap'_def)
  note IH = Suc.hyps(1) [OF k]
  show ?case
    by (subst occupancy_loop.simps)
       (simp add: r f IH split: sum.splits prod.splits)
qed

lemma occupancy_pass_frames:
  "cap_frames (fst (process_occupancy_analysis detect slots cap dt p)) = cap_frames cap"
proof -
  obtain c r where l: "occupancy_loop detect slots 30 cap dt [] p 0 = (c, r)"
    by (cases "occupancy_loop detect slots 30 cap dt [] p 0")
  have "cap_frames c = cap_frames cap"
    using occupancy_loop_frames [of detect slots 30 cap dt "[]" p 0] by (simp add: l)
  then show ?thesis
    by (simp add: process_occupancy_analysis_def l Let_def split: sum.splits prod.splits)
qed

lemma duration_pass_rewound:
  "snd (process_duration_analysis detect slots (cap_rewind cap) dt p)
     = snd (process_duration_analysis detect slots (open_capture (cap_frames cap)) dt p)"
proof -
  have a: "sampled_from 15 0 (cap_frames cap)
     = sampled_from 15 0 (drop (cap_pos (cap_rewind cap)) (cap_frames (cap_rewind cap)))"
    by (simp add: cap_rewind_def)
  have b: "sampled_from 15 0 (cap_frames cap)
     = sampled_from 15 0 (drop (cap_pos (open_capture (cap_frames cap)))
                               (cap_frames (open_capture (cap_frames cap))))"
    by (simp add: open_capture_def)
  show ?thesis
    by (simp only: duration_pass_spec [OF a] duration_pass_spec [OF b])
qed

lemma merge_slots_spec:
  "merge_slots slots i occ dur =
     (if slots = [] \<or> i + length slots \<le> min (length occ) (length dur)
      then Inr (map (\<lambda>j. merge_slot (slots ! j) (occ ! (i + j)) (dur ! (i + j)))
                  [0..<length slots])
      else Inl IndexError)"
proof (induction slots arbitrary: i)
  case Nil
  then show ?case by simp
next
  case (Cons s rest)
  have m: "map (\<lambda>j. merge_slot ((s # rest) ! j) (occ ! (i + j)) (dur ! (i + j)))
             [0..<length (s # rest)]
           = merge_slot s (occ ! i) (dur ! i)
             # map (\<lambda>j. merge_slot (rest ! j) (occ ! (Suc i + j)) (dur ! (Suc i + j)))
                 [0..<length rest]"
    by (simp add: upt_conv_Cons map_Suc_upt [symmetric] del: upt_Suc)
  show ?case
  proof (cases "i < length occ \<and> i < length dur")
    case True
    show ?thesis
    proof (cases "rest = []")
      case r: True
      then show ?thesis using True by simp
    next
      case r: False
      then show ?thesis using True m Cons.IH [of "Suc i"] by (auto simp: r)
    qed
  next
    case False
    then show ?thesis by auto
  qed
qed

lemma note_id_distinct: "distinct acc \<Longrightarrow> distinct (foldl note_id acc ks)"
  by (induction ks arbitrary: acc) (simp_all add: note_id_def)

lemma note_id_set: "set (foldl note_id acc ks) = set acc \<union> set ks"
  by (induction ks arbitrary: acc) (auto simp: note_id_def)

lemma note_id_known: "set ks \<subseteq> set acc \<Longrightarrow> foldl note_id acc ks = acc"
  by (induction ks arbitrary: acc) (simp_all add: note_id_def)

lemma note_id_fresh: "distinct (acc @ ks) \<Longrightarrow> foldl note_id acc ks = acc @ ks"
  by (induction ks arbitrary: acc) (simp_all add: note_id_def)

lemma fold_absorb_ids:
  "map slot_id (foldl absorb_verdict sd obs) = foldl note_id (map slot_id sd) (map slot_id obs)"
proof (induction obs arbitrary: sd)
  case Nil
  then show ?case by simp
next
  case (Cons v obs)
  have "map slot_id (absorb_verdict sd v) = note_id (map slot_id sd) (slot_id v)"
    by (simp add: absorb_verdict_def absorb_ids note_id_def)
  then show ?case using Cons.IH [of "absorb_verdict sd v"] by simp
qed

lemma frame_verdicts_ids:
  "map slot_id (frame_verdicts slots fds) = concat (replicate (length fds) (map s_id slots))"
proof (induction fds)
  case Nil
  then show ?case by (simp add: frame_verdicts_def)
next
  case (Cons x fds)
  obtain f ds where x: "x = (f, ds)" by (cases x)
  have "map slot_id (map (\<lambda>slt. analyze_slot_occupancy f slt ds) slots) = map s_id slots"
    by (simp add: slot_id_analyze)
  then show ?case using Cons by (simp add: x frame_verdicts_Cons)
qed

lemma retained_ids_aligned:
  assumes "length slots \<le> length (foldl absorb_verdict [] (frame_verdicts slots fds))"
  shows "map slot_id (foldl absorb_verdict [] (frame_verdicts slots fds)) = map s_id slots"
proof (cases fds)
  case Nil
  then have "slots = []" using assms by (simp add: frame_verdicts_def)
  then show ?thesis by (simp add: Nil frame_verdicts_def)
next
  case (Cons x rest)
  let ?ids = "map s_id slots"
  let ?A = "foldl note_id [] ?ids"
  have ids: "map slot_id (foldl absorb_verdict [] (frame_verdicts slots fds))
               = foldl note_id ?A (concat (replicate (length rest) ?ids))"
    by (simp add: fold_absorb_ids frame_verdicts_ids Cons)
  have sA: "set ?A = set ?ids" by (simp add: note_id_set)
  have "set (concat (replicate (length rest) ?ids)) \<subseteq> set ?A"
    by (auto simp: sA)
  then have eqA: "map slot_id (foldl absorb_verdict [] (frame_verdicts slots fds)) = ?A"
    using ids by (simp add: note_id_known)
  have dA: "distinct ?A" by (rule note_id_distinct) simp
  have "length ?A = card (set ?ids)" using distinct_card [OF dA] sA by simp
  moreover have "length ?ids \<le> length ?A"
    using assms eqA by (metis length_map)
  ultimately have "length ?ids \<le> card (set ?ids)" by simp
  then have "card (set ?ids) = length ?ids" using card_length [of ?ids] by linarith
  then have "distinct ?ids" by (rule card_distinct)
  then have "?A = ?ids" using note_id_fresh [of "[]" ?ids] by simp
  then show ?thesis using eqA by simp
qed

text \<open>
  With distinct slot ids and at least one sampled frame the retained verdicts are exactly
  one per configured slot, in the order of the configuration.
\<close>

lemma retained_ids_distinct:
  assumes "distinct (map s_id slots)" "fds \<noteq> []"
  shows "map slot_id (foldl absorb_verdict [] (frame_verdicts slots fds)) = map s_id slots"
proof -
  obtain x rest where fds: "fds = x # rest" using assms(2) by (cases fds) auto
  let ?ids = "map s_id slots"
  have A: "foldl note_id [] ?ids = ?ids" using note_id_fresh [of "[]" ?ids] assms(1) by simp
  have "map slot_id (foldl absorb_verdict [] (frame_verdicts slots fds))
          = foldl note_id (foldl note_id [] ?ids) (concat (replicate (length rest) ?ids))"
    by (simp add: fold_absorb_ids frame_verdicts_ids fds)
  also have "\<dots> = foldl note_id ?ids (concat (replicate (length rest) ?ids))"
    by (simp only: A)
  also have "\<dots> = ?ids" by (rule note_id_known) auto
  finally show ?thesis .
qed

text \<open>
  The full analysis returns: when the detector never raises, the configuration is not empty
  and has distinct ids, and the video has a frame, both passes and the merge succeed, and
  the number of processed frames is the sum of the two passes.
\<close>

lemma full_analysis_returns:
  assumes t: "\<And>d f. \<exists>r. detect d f = Inr r"
    and ne: "slots \<noteq> []" and fr: "frames \<noteq> []" and di: "distinct (map s_id slots)"
  shows "\<exists>res dt2. snd (process_full_analysis detect slots (open_capture frames) dt p)
           = Inr (res, dt2, p + length (every_nth 30 frames) + length (every_nth 15 frames))"
proof -
  let ?cap = "open_capture frames"
  let ?S = "map snd (every_nth 30 frames)"
  have s30: "?S = map snd (sampled_from 30 0 (drop (cap_pos ?cap) (cap_frames ?cap)))"
    by (simp add: every_nth_sampled open_capture_def)
  obtain dss dt1 where d1: "detections_on detect ?S dt = Inr (dss, dt1)"
    and l1: "length dss = length ?S"
    using detections_on_total [of detect ?S dt] t by blast
  define occ where
    "occ = occupancy_summary slots (foldl absorb_verdict [] (frame_verdicts slots (zip ?S dss)))"
  have po: "snd (process_occupancy_analysis detect slots ?cap dt p)
              = Inr (occ, dt1, p + length (every_nth 30 frames))"
    unfolding occupancy_pass_spec [OF s30, of detect slots dt p] d1
    by (simp add: occ_def)
  obtain c1 where o: "process_occupancy_analysis detect slots ?cap dt p
                        = (c1, Inr (occ, dt1, p + length (every_nth 30 frames)))"
    using po by (cases "process_occupancy_analysis detect slots ?cap dt p") simp
  have c1: "cap_frames c1 = frames"
    using occupancy_pass_frames [of detect slots ?cap dt p] unfolding o
    by (simp add: open_capture_def)
  have "?S \<noteq> []" using every_nth_nonempty [OF fr] by simp
  then have "zip ?S dss \<noteq> []" using l1 by (cases ?S; cases dss) auto
  then have ids: "map slot_id (slot_detections occ) = map s_id slots"
    using retained_ids_distinct [OF di]
    by (simp add: occ_def occupancy_summary_def Let_def)
  then have locc: "length (slot_detections occ) = length slots" by (metis length_map)
  let ?p1 = "p + length (every_nth 30 frames)"
  have s15: "every_nth 15 frames
     = sampled_from 15 0 (drop (cap_pos ?cap) (cap_frames ?cap))"
    by (simp add: every_nth_sampled open_capture_def)
  obtain dss2 dt2 where d2: "detections_on detect (map snd (every_nth 15 frames)) dt1
                              = Inr (dss2, dt2)"
    using detections_on_total [of detect "map snd (every_nth 15 frames)" dt1] t by blast
  define dur where
    "dur = duration_summary slots
             (map (\<lambda>s. duration_report s
                          (analyze_slot_duration
                             (slot_entries slots (zip (every_nth 15 frames) dss2) (s_id s))))
                slots)"
  have pd: "snd (process_duration_analysis detect slots ?cap dt1 ?p1)
              = Inr (dur, dt2, ?p1 + length (every_nth 15 frames))"
    unfolding duration_pass_spec [OF s15, of detect slots dt1 ?p1] d2
    by (simp add: ne dur_def)
  have "snd (process_duration_analysis detect slots (cap_rewind c1) dt1 ?p1)
              = Inr (dur, dt2, ?p1 + length (every_nth 15 frames))"
    using duration_pass_rewound [of detect slots c1 dt1 ?p1] pd by (simp add: c1)
  then obtain c2 where d: "process_duration_analysis detect slots (cap_rewind c1) dt1 ?p1
                        = (c2, Inr (dur, dt2, ?p1 + length (every_nth 15 frames)))"
    by (cases "process_duration_analysis detect slots (cap_rewind c1) dt1 ?p1") simp
  have ldur: "length (slot_detections dur) = length slots"
    by (simp add: dur_def duration_summary_def)
  have m: "merge_slots slots 0 (slot_detections occ) (slot_detections dur)
     = Inr (map (\<lambda>j. merge_slot (slots ! j) (slot_detections occ ! (0 + j))
                                  (slot_detections dur ! (0 + j))) [0..<length slots])"
    by (simp add: merge_slots_spec locc ldur)
  show ?thesis
    by (simp add: process_full_analysis_def o d m Let_def)
qed

text \<open>
  Claim C4. Whenever the full analysis returns, its result is the merge of the occupancy
  pass and of the duration pass run on the same capture from frame 0, the second with the
  detector state and the frame counter left by the first. Both passes list one entry per
  slot of the configuration, in its order, so the entries merged at index \<open>i\<close> are those
  of slot \<open>i\<close>; \<open>is_occupied\<close> is that of the occupancy pass, the confidence is the maximum
  of the two confidences, \<open>predicted_duration\<close> is that of the duration pass, which always
  sets it, and the overall confidence score is the average of the two overall scores. The
  merge of a single slot gives confidence 0.9 on confidences 0.6 and 0.9, and duration
  1800 when the duration entry has none.
\<close>

theorem full_analysis_merges_passes:
  assumes "snd (process_full_analysis detect slots (open_capture frames) dt p)
             = Inr (res, dt2, p2)"
  shows "\<exists>occ dur dt1 p1.
      snd (process_occupancy_analysis detect slots (open_capture frames) dt p)
        = Inr (occ, dt1, p1)
    \<and> snd (process_duration_analysis detect slots (open_capture frames) dt1 p1)
        = Inr (dur, dt2, p2)
    \<and> length (slot_detections res) = length slots
    \<and> length (slot_detections occ) = length slots
    \<and> length (slot_detections dur) = length slots
    \<and> (\<forall>i < length slots.
          slot_id (slot_detections occ ! i) = s_id (slots ! i)
        \<and> d_slot_id (slot_detections dur ! i) = s_id (slots ! i)
        \<and> f_slot_id (slot_detections res ! i) = s_id (slots ! i)
        \<and> f_is_occupied (slot_detections res ! i) = is_occupied (slot_detections occ ! i)
        \<and> f_confidence (slot_detections res ! i)
            = max (v_confidence (slot_detections occ ! i))
                  (d_confidence (slot_detections dur ! i))
        \<and> d_predicted_duration (slot_detections dur ! i)
            = Some (f_predicted_duration (slot_detections res ! i))
        \<and> slot_detections res ! i
            = merge_slot (slots ! i) (slot_detections occ ! i) (slot_detections dur ! i))
    \<and> overall (confidence_scores res)
        = (overall (confidence_scores occ) + overall (confidence_scores dur)) / 2
    \<and> (\<forall>s v d. v_confidence v = 0.6 \<and> d_confidence d = 0.9 \<longrightarrow>
           f_confidence (merge_slot s v d) = 0.9)
    \<and> (\<forall>s v d. d_predicted_duration d = None \<longrightarrow>
           f_predicted_duration (merge_slot s v d) = 1800)"
proof -
  let ?cap = "open_capture frames"
  obtain c1 r1 where o: "process_occupancy_analysis detect slots ?cap dt p = (c1, r1)"
    by (cases "process_occupancy_analysis detect slots ?cap dt p")
  from assms obtain occ dt1 p1 where r1: "r1 = Inr (occ, dt1, p1)"
    by (auto simp: process_full_analysis_def o split: sum.splits prod.splits)
  have c1: "cap_frames c1 = frames"
    using occupancy_pass_frames [of detect slots ?cap dt p] unfolding o
    by (simp add: open_capture_def)
  obtain c2 r2 where d: "process_duration_analysis detect slots (cap_rewind c1) dt1 p1 = (c2, r2)"
    by (cases "process_duration_analysis detect slots (cap_rewind c1) dt1 p1")
  from assms obtain dur dt2' p2' where r2: "r2 = Inr (dur, dt2', p2')"
    by (auto simp: process_full_analysis_def o r1 d split: sum.splits prod.splits)
  from assms obtain fd where
    m: "merge_slots slots 0 (slot_detections occ) (slot_detections dur) = Inr fd"
    by (auto simp: process_full_analysis_def o r1 d r2 split: sum.splits prod.splits)
  from assms have res: "slot_detections res = fd"
    and ov: "overall (confidence_scores res)
        = (overall (confidence_scores occ) + overall (confidence_scores dur)) / 2"
    and dp: "dt2' = dt2" "p2' = p2"
    by (auto simp: process_full_analysis_def o r1 d r2 m Let_def)
  have po: "snd (process_occupancy_analysis detect slots ?cap dt p) = Inr (occ, dt1, p1)"
    by (simp add: o r1)
  have pd: "snd (process_duration_analysis detect slots ?cap dt1 p1) = Inr (dur, dt2, p2)"
    using duration_pass_rewound [of detect slots c1 dt1 p1] by (simp add: d r2 dp c1)
  \<comment> \<open>the shape of the two lists\<close>
  let ?S = "map snd (every_nth 30 frames)"
  have s30: "?S = map snd (sampled_from 30 0 (drop (cap_pos ?cap) (cap_frames ?cap)))"
    by (simp add: every_nth_sampled open_capture_def)
  from po occupancy_pass_spec [OF s30, of detect slots dt p] obtain dss where
    occ: "occ = occupancy_summary slots (foldl absorb_verdict [] (frame_verdicts slots (zip ?S dss)))"
    by (auto split: sum.splits prod.splits)
  have so: "slot_detections occ = foldl absorb_verdict [] (frame_verdicts slots (zip ?S dss))"
    by (simp add: occ occupancy_summary_def Let_def)
  have s15: "every_nth 15 frames
     = sampled_from 15 0 (drop (cap_pos ?cap) (cap_frames ?cap))"
    by (simp add: every_nth_sampled open_capture_def)
  from pd duration_pass_spec [OF s15, of detect slots dt1 p1] obtain dss2 where
    ne: "slots \<noteq> []"
    and dur: "dur = duration_summary slots
                   (map (\<lambda>s. duration_report s
                                (analyze_slot_duration
                                   (slot_entries slots (zip (every_nth 15 frames) dss2) (s_id s))))
                      slots)"
    by (auto split: sum.splits prod.splits if_splits)
  have sdur: "slot_detections dur
     = map (\<lambda>s. duration_report s
                  (analyze_slot_duration
                     (slot_entries slots (zip (every_nth 15 frames) dss2) (s_id s)))) slots"
    by (simp add: dur duration_summary_def)
  have ldur: "length (slot_detections dur) = length slots" by (simp add: sdur)
  from m ne have le: "length slots \<le> length (slot_detections occ)"
    and fd: "fd = map (\<lambda>j. merge_slot (slots ! j) (slot_detections occ ! (0 + j))
                                   (slot_detections dur ! (0 + j))) [0..<length slots]"
    by (auto simp: merge_slots_spec split: if_splits)
  have ids: "map slot_id (slot_detections occ) = map s_id slots"
    unfolding so by (rule retained_ids_aligned) (use le so in simp)
  then have locc: "length (slot_detections occ) = length slots"
    by (metis length_map)
  have lres: "length (slot_detections res) = length slots" by (simp add: res fd)
  have per: "slot_id (slot_detections occ ! i) = s_id (slots ! i)
        \<and> d_slot_id (slot_detections dur ! i) = s_id (slots ! i)
        \<and> f_slot_id (slot_detections res ! i) = s_id (slots ! i)
        \<and> f_is_occupied (slot_detections res ! i) = is_occupied (slot_detections occ ! i)
        \<and> f_confidence (slot_detections res ! i)
            = max (v_confidence (slot_detections occ ! i))
                  (d_confidence (slot_detections dur ! i))
        \<and> d_predicted_duration (slot_detections dur ! i)
            = Some (f_predicted_duration (slot_detections res ! i))
        \<and> slot_detections res ! i
            = merge_slot (slots ! i) (slot_detections occ ! i) (slot_detections dur ! i)"
    if i: "i < length slots" for i
  proof -
    have a: "slot_id (slot_detections occ ! i) = s_id (slots ! i)"
      using ids i locc by (metis nth_map)
    have b: "slot_detections res ! i
            = merge_slot (slots ! i) (slot_detections occ ! i) (slot_detections dur ! i)"
      using i by (simp add: res fd)
    have c: "slot_detections dur ! i
       = duration_report (slots ! i)
           (analyze_slot_duration
              (slot_entries slots (zip (every_nth 15 frames) dss2) (s_id (slots ! i))))"
      using i by (simp add: sdur)
    show ?thesis
      using a by (simp add: b c merge_slot_def duration_report_def)
  qed
  have ex1: "\<forall>s v d. v_confidence v = 0.6 \<and> d_confidence d = 0.9 \<longrightarrow>
           f_confidence (merge_slot s v d) = 0.9"
    by (simp add: merge_slot_def)
  have ex2: "\<forall>s v d. d_predicted_duration d = None \<longrightarrow>
           f_predicted_duration (merge_slot s v d) = 1800"
    by (simp add: merge_slot_def)
  show ?thesis
    using po pd lres locc ldur per ov ex1 ex2 by blast
qed

theorem full_analysis_merges_passes_witness:
  "\<exists>res. snd (process_full_analysis no_detections [slot_at (0, 0, 10, 10)]
               (open_capture [busy_frame]) () 0) = Inr (res, (), 2)
         \<and> length (slot_detections res) = 1
         \<and> f_slot_id (slot_detections res ! 0) = 1
         \<and> f_confidence (merge_slot (slot_at (0, 0, 10, 10))
               \<lparr>slot_id = 1, slot_number = 1, is_occupied = True, v_confidence = 0.6,
                 vehicle_type = None, detection_box = None\<rparr>
               \<lparr>d_slot_id = 1, d_slot_number = 1, d_is_occupied = True, d_confidence = 0.9,
                 d_predicted_duration = None, occupancy_changes = 0,
                 stability_score = None\<rparr>) = 0.9
         \<and> f_predicted_duration (merge_slot (slot_at (0, 0, 10, 10))
               \<lparr>slot_id = 1, slot_number = 1, is_occupied = True, v_confidence = 0.6,
                 vehicle_type = None, detection_box = None\<rparr>
               \<lparr>d_slot_id = 1, d_slot_number = 1, d_is_occupied = True, d_confidence = 0.9,
                 d_predicted_duration = None, occupancy_changes = 0,
                 stability_score = None\<rparr>) = 1800"
proof -
  let ?slots = "[slot_at (0, 0, 10, 10)]"
  let ?v = "\<lparr>slot_id = 1, slot_number = 1, is_occupied = True, v_confidence = 0.6,
             vehicle_type = None, detection_box = None\<rparr>"
  let ?d = "\<lparr>d_slot_id = 1, d_slot_number = 1, d_is_occupied = True, d_confidence = 0.9,
             d_predicted_duration = None, occupancy_changes = 0, stability_score = None\<rparr>"
  have t: "\<And>d f. \<exists>r. no_detections d f = Inr r" by (simp add: no_detections_def)
  have e30: "every_nth 30 [busy_frame] = [(0, busy_frame)]" by (simp add: every_nth_def)
  have e15: "every_nth 15 [busy_frame] = [(0, busy_frame)]" by (simp add: every_nth_def)
  from full_analysis_returns [of no_detections ?slots "[busy_frame]" "()" 0, OF t]
  obtain res where run: "snd (process_full_analysis no_detections ?slots
               (open_capture [busy_frame]) () 0) = Inr (res, (), 2)"
    by (auto simp: e30 e15)
  from full_analysis_merges_passes [OF run] have
    "length (slot_detections res) = length ?slots"
    "\<forall>i < length ?slots. f_slot_id (slot_detections res ! i) = s_id (?slots ! i)"
    and ex1: "\<forall>s v d. v_confidence v = 0.6 \<and> d_confidence d = 0.9 \<longrightarrow>
           f_confidence (merge_slot s v d) = 0.9"
    and ex2: "\<forall>s v d. d_predicted_duration d = None \<longrightarrow>
           f_predicted_duration (merge_slot s v d) = 1800"
    by blast+
  then have a: "length (slot_detections res) = 1" "f_slot_id (slot_detections res ! 0) = 1"
    by (simp_all add: slot_at_def)
  have b: "f_confidence (merge_slot (slot_at (0, 0, 10, 10)) ?v ?d) = 0.9"
    using ex1 by simp
  have c: "f_predicted_duration (merge_slot (slot_at (0, 0, 10, 10)) ?v ?d) = 1800"
    using ex2 by simp
  show ?thesis using run a b c by blast
qed

end
